theory Spec2Isabelle
  imports Main
begin

section \<open>Strings, URLs and requests\<close>

text \<open>
  Go strings are byte sequences; \<open>string\<close> (a list of 8-bit characters) is the same data.
  \<open>HasPrefix\<close> and \<open>HasSuffix\<close> are the two functions of package \<open>strings\<close> that
  \<open>join\<close> calls.
\<close>

definition HasPrefix :: "string \<Rightarrow> string \<Rightarrow> bool" where
  "HasPrefix s p = (length p \<le> length s \<and> take (length p) s = p)"

definition HasSuffix :: "string \<Rightarrow> string \<Rightarrow> bool" where
  "HasSuffix s x = (length x \<le> length s \<and> drop (length s - length x) s = x)"

text \<open>
  \<open>join\<close>, lines 122-134 of the proxy package. \<open>b[1:]\<close> is only evaluated when \<open>b\<close>
  starts with a slash, so it is never out of range; it is \<open>drop 1 b\<close>.
\<close>

definition join :: "string \<Rightarrow> string \<Rightarrow> string" where
  "join a b =
     (let aslash = HasSuffix a ''/'';
          bslash = HasPrefix b ''/''
      in if aslash \<and> bslash then a @ drop 1 b
         else if \<not> aslash \<and> \<not> bslash then a @ ''/'' @ b
         else a @ b)"

text \<open>
  The two fragments without the slash each of them offers at the junction (what
  \<open>strings.TrimSuffix\<close> and \<open>strings.TrimPrefix\<close> compute). They are used only to state
  where the junction of a joined path lies.
\<close>

definition TrimSuffix :: "string \<Rightarrow> string \<Rightarrow> string" where
  "TrimSuffix s x = (if HasSuffix s x then take (length s - length x) s else s)"

definition TrimPrefix :: "string \<Rightarrow> string \<Rightarrow> string" where
  "TrimPrefix s p = (if HasPrefix s p then drop (length p) s else s)"

text \<open>
  The junction of a joined path. \<open>join a b\<close> is always \<open>a\<close> without one final slash,
  one slash, and \<open>b\<close> without one leading slash, so its separating slash stands at the
  index \<open>length (TrimSuffix a ''/'')\<close>. \<open>double_slash_at r n\<close> says that the characters
  of \<open>r\<close> at \<open>n\<close> and \<open>n + 1\<close> are both slashes; the joined path has a double slash at
  the junction when its separating slash has a slash right before it or right after it.
\<close>

definition double_slash_at :: "string \<Rightarrow> nat \<Rightarrow> bool" where
  "double_slash_at r n = (Suc n < length r \<and> r ! n = CHR ''/'' \<and> r ! Suc n = CHR ''/'')"

definition junction_doubled :: "string \<Rightarrow> string \<Rightarrow> bool" where
  "junction_doubled a b =
     (let r = join a b; n = length (TrimSuffix a ''/'')
      in (0 < n \<and> double_slash_at r (n - 1)) \<or> double_slash_at r n)"

text \<open>The fields of \<open>url.URL\<close> and \<open>http.Request\<close> that the director reads or writes.\<close>

record URL =
  Scheme :: string
  Host :: string
  Path :: string
  RawQuery :: string

record Request =
  ReqHost :: string
  Header :: "string \<rightharpoonup> string list"
  ReqURL :: URL

text \<open>The query of the rewritten request, lines 159-163.\<close>

definition mergeQuery :: "string \<Rightarrow> string \<Rightarrow> string" where
  "mergeQuery raw q = (if raw = '''' \<or> q = '''' then raw @ q else raw @ ''&'' @ q)"

text \<open>
  The director closure of one route, lines 147-168: \<open>to\<close> is the parsed target and
  \<open>raw\<close> its query, captured when the closure is built. \<open>Header.Set\<close> stores a
  one-element value list under the key.
\<close>

definition director :: "URL \<Rightarrow> Request \<Rightarrow> Request" where
  "director to req =
     (let raw = RawQuery to;
          h1 = (Header req)(''Host'' \<mapsto> [Host to]);
          u = (ReqURL req)\<lparr>Scheme := Scheme to, Host := Host to,
                 Path := join (Path to) (Path (ReqURL req)),
                 RawQuery := mergeQuery raw (RawQuery (ReqURL req))\<rparr>;
          h2 = (case h1 ''User-Agent'' of None \<Rightarrow> h1(''User-Agent'' \<mapsto> ['''']) | Some _ \<Rightarrow> h1)
      in req\<lparr>ReqHost := Host to, Header := h2, ReqURL := u\<rparr>)"

section \<open>Configuration and errors\<close>

text \<open>
  The configuration types of the package. \<open>Stop\<close> is \<open>None\<close> for a nil channel and
  names the channel otherwise; \<open>StopTimeout\<close> is a duration, \<open>-1\<close> meaning no bound;
  \<open>TLSConfig\<close> is an opaque handle that is only passed on to the server.
\<close>

record Route =
  From :: string
  To :: string

record ReverseProxy =
  Cert :: string
  Key :: string
  Port :: string
  Routes :: "Route list"
  TLSConfig :: "nat option"
  Stop :: "nat option"
  StopTimeout :: int

text \<open>
  Error values. \<open>ErrServerClosed\<close> is \<open>http.ErrServerClosed\<close>, which the code compares
  against; \<open>DeadlineExceeded\<close> is what \<open>Shutdown\<close> returns when its context expires;
  every other error (a parse error of \<open>url.Parse\<close>, a bind or serve error) is opaque.
\<close>

datatype error = ErrServerClosed | DeadlineExceeded | OtherError string

section \<open>The routing table\<close>

text \<open>
  \<open>http.ServeMux\<close> keeps its handlers in a map keyed by pattern. A handler built by
  \<open>listenAndServe\<close> is a reverse proxy whose director is \<open>director to\<close>, so the table
  stores the target \<open>to\<close>. \<open>ServeMux.Handle\<close> panics on an empty pattern and on a
  pattern that is already registered (net/http: "http: invalid pattern",
  "http: multiple registrations for ..."); \<open>None\<close> is the panic.
\<close>

type_synonym ServeMux = "string \<rightharpoonup> URL"

definition Handle :: "ServeMux \<Rightarrow> string \<Rightarrow> URL \<Rightarrow> ServeMux option" where
  "Handle mux pattern to =
     (if pattern = '''' then None
      else if mux pattern \<noteq> None then None
      else Some (mux(pattern \<mapsto> to)))"

text \<open>
  The loop over \<open>r.Routes\<close>, lines 139-172. \<open>url.Parse\<close> is the parameter \<open>parse\<close>.
  The loop ends at the first target that does not parse (the error is sent and
  \<open>listenAndServe\<close> returns), or when a registration panics, or with the full table.
\<close>

datatype routes_result = Panicked | ConfigError error | Built ServeMux

fun routes_loop :: "(string \<Rightarrow> error + URL) \<Rightarrow> Route list \<Rightarrow> ServeMux \<Rightarrow> routes_result" where
  "routes_loop parse [] mux = Built mux"
| "routes_loop parse (route # rest) mux =
     (case parse (To route) of
        Inl e \<Rightarrow> ConfigError e
      | Inr to \<Rightarrow>
          (case Handle mux (From route) to of
             None \<Rightarrow> Panicked
           | Some mux' \<Rightarrow> routes_loop parse rest mux'))"

text \<open>Lines 206-211: the choice between \<open>ListenAndServe\<close> and \<open>ListenAndServeTLS\<close>.\<close>

datatype proto = PlainHTTP | HTTPS

definition serve_proto :: "ReverseProxy \<Rightarrow> proto" where
  "serve_proto r = (if Key r = '''' then PlainHTTP else HTTPS)"

section \<open>The goroutines of a fleet\<close>

text \<open>
  Every goroutine is a program counter over the statements of the source that touch
  shared state or block; a step of the system runs one goroutine from one such point to
  the next. The goroutines are: the caller of \<open>Proxy\<close> (lines 102-119), one
  \<open>listenAndServe\<close> per configured proxy (lines 136-218), the goroutine of each listener
  that watches its stop channel (lines 181-204), and the goroutine that closes the error
  channel (lines 113-116).
\<close>

datatype cpc =
    C_Wait            \<comment> \<open>at \<open>active.Wait()\<close>, line 106\<close>
  | C_Add             \<comment> \<open>at \<open>active.Add(len(p.Proxies))\<close>, line 107\<close>
  | C_Spawn nat       \<comment> \<open>in the loop of lines 109-111, next index to start\<close>
  | C_Returned        \<comment> \<open>\<open>Proxy\<close> has returned \<open>errs\<close>\<close>

datatype lpc =
    L_NotStarted      \<comment> \<open>the \<open>go\<close> statement has not run yet\<close>
  | L_Routes          \<comment> \<open>at the start of \<open>listenAndServe\<close>\<close>
  | L_SendConfigErr error  \<comment> \<open>blocked in \<open>errs <- err\<close>, line 143\<close>
  | L_Aborted         \<comment> \<open>returned at line 144\<close>
  | L_Serving proto   \<comment> \<open>inside \<open>ListenAndServe\<close> or \<open>ListenAndServeTLS\<close>\<close>
  | L_SendErr         \<comment> \<open>blocked in \<open>errs <- err\<close>, line 214\<close>
  | L_Done            \<comment> \<open>at \<open>active.Done()\<close>, line 217\<close>
  | L_Exited          \<comment> \<open>returned at line 218\<close>

datatype wpc =
    W_NotStarted
  | W_Start           \<comment> \<open>at \<open>if stop == nil\<close>, line 182\<close>
  | W_Select          \<comment> \<open>in the \<open>select\<close> of line 186\<close>
  | W_Returned

datatype mpc =
    M_NotStarted
  | M_Wait            \<comment> \<open>at \<open>active.Wait()\<close>, line 114\<close>
  | M_Close           \<comment> \<open>at \<open>close(errs)\<close>, line 115\<close>
  | M_Exited

record Server =
  Addr :: string
  Handler :: ServeMux
  inShutdown :: bool

record listener =
  lpc :: lpc
  srv :: "Server option"      \<comment> \<open>\<open>srv\<close>, line 174; \<open>None\<close> before it is created\<close>
  err :: "error option"       \<comment> \<open>\<open>var err error\<close>, line 179; \<open>None\<close> is nil\<close>
  wpc :: wpc

text \<open>
  One call of \<open>Proxy\<close>: its argument, its channel \<open>errs\<close> and the goroutines it
  starts. \<open>received\<close> lists the values that have been sent on \<open>errs\<close> and taken by the
  reader of the channel, each with the index of the listener that sent it.
\<close>

record fleet =
  cfg :: "ReverseProxy list"
  cpc :: cpc
  listeners :: "listener list"
  mpc :: mpc
  closed :: bool
  received :: "(nat \<times> error) list"

text \<open>
  The state of the program: the counter of the package-level wait group \<open>active\<close>, the
  calls of \<open>Proxy\<close> made so far, and whether a goroutine has panicked (which ends the
  whole process). The wait group is its counter: \<open>Add\<close> adds to it, \<open>Done\<close> takes one
  off and panics below zero, and \<open>Wait\<close> returns when it is zero. The channel \<open>errs\<close> is
  unbuffered: a send completes when the reader takes the value, and panics on a closed
  channel.
\<close>

record state =
  active :: nat
  fleets :: "fleet list"
  crashed :: bool

definition init :: state where
  "init = \<lparr>active = 0, fleets = [], crashed = False\<rparr>"

definition new_listener :: listener where
  "new_listener = \<lparr>lpc = L_NotStarted, srv = None, err = None, wpc = W_NotStarted\<rparr>"

definition new_fleet :: "ReverseProxy list \<Rightarrow> fleet" where
  "new_fleet p = \<lparr>cfg = p, cpc = C_Wait, listeners = replicate (length p) new_listener,
                   mpc = M_NotStarted, closed = False, received = []\<rparr>"

definition upd_fleet :: "nat \<Rightarrow> (fleet \<Rightarrow> fleet) \<Rightarrow> state \<Rightarrow> state" where
  "upd_fleet k g s = s\<lparr>fleets := (fleets s)[k := g (fleets s ! k)]\<rparr>"

definition upd_listener :: "nat \<Rightarrow> (listener \<Rightarrow> listener) \<Rightarrow> fleet \<Rightarrow> fleet" where
  "upd_listener i g f = f\<lparr>listeners := (listeners f)[i := g (listeners f ! i)]\<rparr>"

definition panic :: "state \<Rightarrow> state" where
  "panic s = s\<lparr>crashed := True\<rparr>"

text \<open>
  The steps. A step that returns \<open>None\<close> cannot be taken in that state: the goroutine
  is not at that statement, or it is blocked there.

  The environment supplies: calls of \<open>Proxy\<close>; the result of \<open>url.Parse\<close>; the error
  returned by \<open>ListenAndServe\<close>/\<open>ListenAndServeTLS\<close>, which is \<open>ErrServerClosed\<close>
  exactly when \<open>Shutdown\<close> has been called on the server (net/http); the values arriving
  on a stop channel and its closing; the result of \<open>Shutdown\<close>, which is discarded and
  can be \<open>DeadlineExceeded\<close> only under a context with a timeout; and the reader of
  \<open>errs\<close>, which takes a value whenever a \<open>Send\<close> step is scheduled.
\<close>

datatype action =
    Call "ReverseProxy list"
  | ProxyStep nat
  | RoutesStep nat nat
  | Send nat nat
  | ServeReturn nat nat "error option"
  | Done nat nat
  | WatcherStart nat nat
  | StopRecv nat nat bool "error option"
  | StopClosed nat nat
  | MonitorStep nat

text \<open>\<open>Proxy\<close>, lines 103-118; \<open>make(chan error)\<close> is part of \<open>Call\<close>.\<close>

definition Proxy_step :: "nat \<Rightarrow> state \<Rightarrow> state option" where
  "Proxy_step k s =
     (let f = fleets s ! k in
      case cpc f of
        C_Wait \<Rightarrow> if active s = 0 then Some (upd_fleet k (\<lambda>f. f\<lparr>cpc := C_Add\<rparr>) s) else None
      | C_Add \<Rightarrow>
          Some (upd_fleet k (\<lambda>f. f\<lparr>cpc := C_Spawn 0\<rparr>) (s\<lparr>active := active s + length (cfg f)\<rparr>))
      | C_Spawn n \<Rightarrow>
          if n < length (cfg f)
          then Some (upd_fleet k
                 (\<lambda>f. (upd_listener n (\<lambda>l. l\<lparr>lpc := L_Routes\<rparr>) f)\<lparr>cpc := C_Spawn (Suc n)\<rparr>) s)
          else Some (upd_fleet k (\<lambda>f. f\<lparr>mpc := M_Wait, cpc := C_Returned\<rparr>) s)
      | C_Returned \<Rightarrow> None)"

text \<open>
  \<open>listenAndServe\<close> from its start to the call of \<open>ListenAndServe\<close>, lines 137-211:
  the route loop, the server, the \<open>go\<close> statement of the stop watcher.
\<close>

definition Routes_step :: "(string \<Rightarrow> error + URL) \<Rightarrow> nat \<Rightarrow> nat \<Rightarrow> state \<Rightarrow> state option" where
  "Routes_step parse k i s =
     (let f = fleets s ! k; r = cfg f ! i in
      case lpc (listeners f ! i) of
        L_Routes \<Rightarrow>
          (case routes_loop parse (Routes r) Map.empty of
             Panicked \<Rightarrow> Some (panic s)
           | ConfigError e \<Rightarrow>
               Some (upd_fleet k (upd_listener i (\<lambda>l. l\<lparr>lpc := L_SendConfigErr e\<rparr>)) s)
           | Built mux \<Rightarrow>
               Some (upd_fleet k (upd_listener i
                 (\<lambda>l. l\<lparr>lpc := L_Serving (serve_proto r),
                         srv := Some \<lparr>Addr = Port r, Handler = mux, inShutdown = False\<rparr>,
                         wpc := W_Start\<rparr>)) s))
      | _ \<Rightarrow> None)"

text \<open>
  The two sends on \<open>errs\<close>, lines 143 and 214. A send on a closed channel panics.
\<close>

definition Send_step :: "nat \<Rightarrow> nat \<Rightarrow> state \<Rightarrow> state option" where
  "Send_step k i s =
     (let f = fleets s ! k; l = listeners f ! i in
      case lpc l of
        L_SendConfigErr e \<Rightarrow>
          if closed f then Some (panic s)
          else Some (upd_fleet k
                 (\<lambda>f. (upd_listener i (\<lambda>l. l\<lparr>lpc := L_Aborted\<rparr>) f)\<lparr>received := received f @ [(i, e)]\<rparr>) s)
      | L_SendErr \<Rightarrow>
          (case err l of
             None \<Rightarrow> None
           | Some e \<Rightarrow>
               if closed f then Some (panic s)
               else Some (upd_fleet k
                      (\<lambda>f. (upd_listener i (\<lambda>l. l\<lparr>lpc := L_Done\<rparr>) f)\<lparr>received := received f @ [(i, e)]\<rparr>) s))
      | _ \<Rightarrow> None)"

text \<open>The return of the serve call and the test of line 213.\<close>

definition Serve_return :: "nat \<Rightarrow> nat \<Rightarrow> error option \<Rightarrow> state \<Rightarrow> state option" where
  "Serve_return k i e s =
     (let f = fleets s ! k; l = listeners f ! i in
      case (lpc l, srv l) of
        (L_Serving p, Some sv) \<Rightarrow>
          if (e = Some ErrServerClosed) = inShutdown sv
          then Some (upd_fleet k (upd_listener i
                 (\<lambda>l. l\<lparr>err := e,
                         lpc := (if e \<noteq> None \<and> e \<noteq> Some ErrServerClosed then L_SendErr else L_Done)\<rparr>)) s)
          else None
      | _ \<Rightarrow> None)"

text \<open>\<open>active.Done()\<close>, line 217. A wait group whose counter would go negative panics.\<close>

definition Done_step :: "nat \<Rightarrow> nat \<Rightarrow> state \<Rightarrow> state option" where
  "Done_step k i s =
     (case lpc (listeners (fleets s ! k) ! i) of
        L_Done \<Rightarrow>
          if active s = 0 then Some (panic s)
          else Some (upd_fleet k (upd_listener i (\<lambda>l. l\<lparr>lpc := L_Exited\<rparr>)) (s\<lparr>active := active s - 1\<rparr>))
      | _ \<Rightarrow> None)"

text \<open>The stop watcher, lines 181-204.\<close>

definition Watcher_start :: "nat \<Rightarrow> nat \<Rightarrow> state \<Rightarrow> state option" where
  "Watcher_start k i s =
     (let f = fleets s ! k in
      case wpc (listeners f ! i) of
        W_Start \<Rightarrow>
          Some (upd_fleet k (upd_listener i
            (\<lambda>l. l\<lparr>wpc := (if Stop (cfg f ! i) = None then W_Returned else W_Select)\<rparr>)) s)
      | _ \<Rightarrow> None)"

definition Stop_recv :: "nat \<Rightarrow> nat \<Rightarrow> bool \<Rightarrow> error option \<Rightarrow> state \<Rightarrow> state option" where
  "Stop_recv k i v res s =
     (let f = fleets s ! k in
      case wpc (listeners f ! i) of
        W_Select \<Rightarrow>
          if \<not> v then Some s
          else if res = Some DeadlineExceeded \<and> StopTimeout (cfg f ! i) = - 1 then None
          else Some (upd_fleet k (upd_listener i
                 (\<lambda>l. l\<lparr>srv := map_option (\<lambda>sv. sv\<lparr>inShutdown := True\<rparr>) (srv l),
                         wpc := W_Returned\<rparr>)) s)
      | _ \<Rightarrow> None)"

definition Stop_closed :: "nat \<Rightarrow> nat \<Rightarrow> state \<Rightarrow> state option" where
  "Stop_closed k i s =
     (case wpc (listeners (fleets s ! k) ! i) of
        W_Select \<Rightarrow> Some (upd_fleet k (upd_listener i (\<lambda>l. l\<lparr>wpc := W_Returned\<rparr>)) s)
      | _ \<Rightarrow> None)"

text \<open>The closing goroutine, lines 113-116. Closing a closed channel panics.\<close>

definition Monitor_step :: "nat \<Rightarrow> state \<Rightarrow> state option" where
  "Monitor_step k s =
     (let f = fleets s ! k in
      case mpc f of
        M_Wait \<Rightarrow> if active s = 0 then Some (upd_fleet k (\<lambda>f. f\<lparr>mpc := M_Close\<rparr>) s) else None
      | M_Close \<Rightarrow>
          if closed f then Some (panic s)
          else Some (upd_fleet k (\<lambda>f. f\<lparr>closed := True, mpc := M_Exited\<rparr>) s)
      | _ \<Rightarrow> None)"

definition on_listener :: "nat \<Rightarrow> nat \<Rightarrow> state \<Rightarrow> bool" where
  "on_listener k i s = (k < length (fleets s) \<and> i < length (listeners (fleets s ! k)))"

fun exec :: "(string \<Rightarrow> error + URL) \<Rightarrow> state \<Rightarrow> action \<Rightarrow> state option" where
  "exec parse s (Call p) = Some (s\<lparr>fleets := fleets s @ [new_fleet p]\<rparr>)"
| "exec parse s (ProxyStep k) = (if k < length (fleets s) then Proxy_step k s else None)"
| "exec parse s (RoutesStep k i) = (if on_listener k i s then Routes_step parse k i s else None)"
| "exec parse s (Send k i) = (if on_listener k i s then Send_step k i s else None)"
| "exec parse s (ServeReturn k i e) = (if on_listener k i s then Serve_return k i e s else None)"
| "exec parse s (Done k i) = (if on_listener k i s then Done_step k i s else None)"
| "exec parse s (WatcherStart k i) = (if on_listener k i s then Watcher_start k i s else None)"
| "exec parse s (StopRecv k i v res) = (if on_listener k i s then Stop_recv k i v res s else None)"
| "exec parse s (StopClosed k i) = (if on_listener k i s then Stop_closed k i s else None)"
| "exec parse s (MonitorStep k) = (if k < length (fleets s) then Monitor_step k s else None)"

text \<open>After a panic the process is gone: nothing runs.\<close>

definition step :: "(string \<Rightarrow> error + URL) \<Rightarrow> state \<Rightarrow> action \<Rightarrow> state option" where
  "step parse s a = (if crashed s then None else exec parse s a)"

fun run :: "(string \<Rightarrow> error + URL) \<Rightarrow> state \<Rightarrow> action list \<Rightarrow> state option" where
  "run parse s [] = Some s"
| "run parse s (a # as) = (case step parse s a of None \<Rightarrow> None | Some s' \<Rightarrow> run parse s' as)"

text \<open>The errors that listener \<open>i\<close> has delivered on the channel of its fleet.\<close>

definition sent_by :: "nat \<Rightarrow> fleet \<Rightarrow> error list" where
  "sent_by i f = map snd (filter (\<lambda>x. fst x = i) (received f))"

section \<open>Invariants of the fleet\<close>

text \<open>
  A listener counts against the wait group from \<open>active.Add\<close> until its own
  \<open>active.Done()\<close>; \<open>pending\<close> is the number of such listeners of one call of
  \<open>Proxy\<close>, and \<open>counter_ok\<close> says that the counter is their total.
\<close>

definition undone :: "listener \<Rightarrow> nat" where
  "undone l = (if lpc l = L_Exited then 0 else 1)"

definition pending :: "fleet \<Rightarrow> nat" where
  "pending f = (if cpc f = C_Wait \<or> cpc f = C_Add then 0 else sum_list (map undone (listeners f)))"

definition counter_ok :: "state \<Rightarrow> bool" where
  "counter_ok s = (active s = sum_list (map pending (fleets s)))"

text \<open>
  What the program counters of one call of \<open>Proxy\<close> imply for its goroutines: before
  the \<open>go\<close> statement of a listener has run the listener has not started; the closing
  goroutine exists once \<open>Proxy\<close> has returned; it is past its \<open>Wait\<close> only when
  every listener of the fleet has returned through line 218; the channel is closed only
  by it.
\<close>

definition fleet_ok :: "fleet \<Rightarrow> bool" where
  "fleet_ok f =
     (length (listeners f) = length (cfg f) \<and>
      (case cpc f of
         C_Wait \<Rightarrow> (\<forall>i<length (listeners f). lpc (listeners f ! i) = L_NotStarted) \<and> mpc f = M_NotStarted
       | C_Add \<Rightarrow> (\<forall>i<length (listeners f). lpc (listeners f ! i) = L_NotStarted) \<and> mpc f = M_NotStarted
       | C_Spawn n \<Rightarrow>
           (\<forall>i<length (listeners f). n \<le> i \<longrightarrow> lpc (listeners f ! i) = L_NotStarted) \<and>
           mpc f = M_NotStarted
       | C_Returned \<Rightarrow> mpc f \<noteq> M_NotStarted) \<and>
      (mpc f = M_Close \<or> mpc f = M_Exited \<longrightarrow>
         (\<forall>i<length (listeners f). lpc (listeners f ! i) = L_Exited)) \<and>
      (closed f \<longrightarrow> mpc f = M_Exited))"

text \<open>
  What a listener has delivered on \<open>errs\<close> at each of its program points, and which
  result of the route loop brought it there. \<open>reported\<close> is the test of line 213.
\<close>

definition reported :: "error option \<Rightarrow> error list" where
  "reported e = (case e of None \<Rightarrow> [] | Some x \<Rightarrow> if x = ErrServerClosed then [] else [x])"

definition built :: "(string \<Rightarrow> error + URL) \<Rightarrow> ReverseProxy \<Rightarrow> bool" where
  "built parse r = (case routes_loop parse (Routes r) Map.empty of Built _ \<Rightarrow> True | _ \<Rightarrow> False)"

definition listener_ok :: "(string \<Rightarrow> error + URL) \<Rightarrow> ReverseProxy \<Rightarrow> error list \<Rightarrow> listener \<Rightarrow> bool" where
  "listener_ok parse r sent l =
     (case lpc l of
        L_NotStarted \<Rightarrow> sent = [] \<and> srv l = None \<and> err l = None
      | L_Routes \<Rightarrow> sent = [] \<and> srv l = None \<and> err l = None
      | L_SendConfigErr e \<Rightarrow>
          sent = [] \<and> srv l = None \<and> err l = None \<and>
          routes_loop parse (Routes r) Map.empty = ConfigError e
      | L_Aborted \<Rightarrow>
          srv l = None \<and> err l = None \<and>
          (\<exists>e. routes_loop parse (Routes r) Map.empty = ConfigError e \<and> sent = [e])
      | L_Serving p \<Rightarrow>
          sent = [] \<and> p = serve_proto r \<and> err l = None \<and>
          (case (routes_loop parse (Routes r) Map.empty, srv l) of
             (Built mux, Some sv) \<Rightarrow> Addr sv = Port r \<and> Handler sv = mux
           | _ \<Rightarrow> False)
      | L_SendErr \<Rightarrow> sent = [] \<and> srv l \<noteq> None \<and> built parse r \<and> reported (err l) \<noteq> []
      | L_Done \<Rightarrow> srv l \<noteq> None \<and> built parse r \<and> sent = reported (err l)
      | L_Exited \<Rightarrow> srv l \<noteq> None \<and> built parse r \<and> sent = reported (err l))"

definition fleet_inv :: "(string \<Rightarrow> error + URL) \<Rightarrow> fleet \<Rightarrow> bool" where
  "fleet_inv parse f =
     (fleet_ok f \<and>
      (\<forall>i<length (listeners f). listener_ok parse (cfg f ! i) (sent_by i f) (listeners f ! i)))"

definition state_ok :: "(string \<Rightarrow> error + URL) \<Rightarrow> state \<Rightarrow> bool" where
  "state_ok parse s = (counter_ok s \<and> (\<forall>k<length (fleets s). fleet_inv parse (fleets s ! k)))"

section \<open>Sample configurations\<close>

text \<open>
  The concrete inputs of the examples below. \<open>sample_parse\<close> stands for \<open>url.Parse\<close>
  on the two targets that the examples use: \<open>http://backend:9000/\<close> parses, and \<open>:\<close>
  is rejected (\<open>url.Parse\<close> reports "missing protocol scheme" for it). No example
  applies it to another string.
\<close>

definition sample_parse :: "string \<Rightarrow> error + URL" where
  "sample_parse s =
     (if s = ''http://backend:9000/''
      then Inr \<lparr>Scheme = ''http'', Host = ''backend:9000'', Path = ''/'', RawQuery = ''''\<rparr>
      else Inl (OtherError ''missing protocol scheme''))"

definition sample_proxy :: "Route list \<Rightarrow> ReverseProxy" where
  "sample_proxy rs = \<lparr>Cert = '''', Key = '''', Port = '':8080'', Routes = rs,
                       TLSConfig = None, Stop = None, StopTimeout = 0\<rparr>"

definition good_route :: Route where
  "good_route = \<lparr>From = ''/'', To = ''http://backend:9000/''\<rparr>"

definition bad_route :: Route where
  "bad_route = \<lparr>From = ''/api/'', To = '':''\<rparr>"

text \<open>
  The state of a fleet of one listener whose only route does not parse, after the
  listener has delivered its error and returned.
\<close>

definition hung_state :: state where
  "hung_state =
     \<lparr>active = 1,
      fleets = [\<lparr>cfg = [sample_proxy [bad_route]], cpc = C_Returned,
                 listeners = [\<lparr>lpc = L_Aborted, srv = None, err = None, wpc = W_NotStarted\<rparr>],
                 mpc = M_Wait, closed = False,
                 received = [(0, OtherError ''missing protocol scheme'')]\<rparr>],
      crashed = False\<rparr>"

text \<open>
  A fleet of two listeners, both started: the first has two routes with the same
  pattern, the second is well-formed.
\<close>

definition dup_state :: state where
  "dup_state =
     \<lparr>active = 2,
      fleets = [\<lparr>cfg = [sample_proxy [good_route, good_route], sample_proxy [good_route]],
                 cpc = C_Spawn 2,
                 listeners = [\<lparr>lpc = L_Routes, srv = None, err = None, wpc = W_NotStarted\<rparr>,
                              \<lparr>lpc = L_Routes, srv = None, err = None, wpc = W_NotStarted\<rparr>],
                 mpc = M_NotStarted, closed = False, received = []\<rparr>],
      crashed = False\<rparr>"

text \<open>
  A listener with a stop channel and a drain timeout that has entered its serve call,
  before and after its watcher received \<open>true\<close>.
\<close>

definition stop_proxy :: ReverseProxy where
  "stop_proxy = \<lparr>Cert = '''', Key = '''', Port = '':8080'', Routes = [good_route],
                  TLSConfig = None, Stop = Some 0, StopTimeout = 5\<rparr>"

definition serving_listener :: "bool \<Rightarrow> wpc \<Rightarrow> listener" where
  "serving_listener down w =
     \<lparr>lpc = L_Serving PlainHTTP,
      srv = Some \<lparr>Addr = '':8080'',
                  Handler = [''/'' \<mapsto> \<lparr>Scheme = ''http'', Host = ''backend:9000'',
                                          Path = ''/'', RawQuery = ''''\<rparr>],
                  inShutdown = down\<rparr>,
      err = None, wpc = w\<rparr>"

definition stop_state :: "listener \<Rightarrow> state" where
  "stop_state l =
     \<lparr>active = 1,
      fleets = [\<lparr>cfg = [stop_proxy], cpc = C_Returned, listeners = [l],
                 mpc = M_Wait, closed = False, received = []\<rparr>],
      crashed = False\<rparr>"

text \<open>A listener with a certificate path and no key path, and one with both.\<close>

definition cert_only_proxy :: ReverseProxy where
  "cert_only_proxy = \<lparr>Cert = ''cert.pem'', Key = '''', Port = '':8443'', Routes = [good_route],
                       TLSConfig = None, Stop = None, StopTimeout = 0\<rparr>"

definition tls_proxy :: ReverseProxy where
  "tls_proxy = \<lparr>Cert = ''cert.pem'', Key = ''key.pem'', Port = '':8443'', Routes = [good_route],
                 TLSConfig = None, Stop = None, StopTimeout = 0\<rparr>"

definition started_state :: "ReverseProxy \<Rightarrow> proto \<Rightarrow> state" where
  "started_state r p =
     \<lparr>active = 1,
      fleets = [\<lparr>cfg = [r], cpc = C_Spawn 1,
                 listeners = [\<lparr>lpc = L_Serving p,
                               srv = Some \<lparr>Addr = Port r,
                                  Handler = [''/'' \<mapsto> \<lparr>Scheme = ''http'', Host = ''backend:9000'',
                                                          Path = ''/'', RawQuery = ''''\<rparr>],
                                  inShutdown = False\<rparr>,
                               err = None, wpc = W_Start\<rparr>],
                 mpc = M_NotStarted, closed = False, received = []\<rparr>],
      crashed = False\<rparr>"

text \<open>
  Two calls of \<open>Proxy\<close>, the second made while the listener of the first is serving:
  the state right after the second call, and the state after the first listener has
  failed, reported, and called \<open>active.Done()\<close>, and the second call has started its
  listener.
\<close>

definition sample_server :: Server where
  "sample_server =
     \<lparr>Addr = '':8080'',
      Handler = [''/'' \<mapsto> \<lparr>Scheme = ''http'', Host = ''backend:9000'', Path = ''/'', RawQuery = ''''\<rparr>],
      inShutdown = False\<rparr>"

definition second_call_state :: state where
  "second_call_state =
     \<lparr>active = 1,
      fleets = [\<lparr>cfg = [sample_proxy [good_route]], cpc = C_Returned,
                 listeners = [\<lparr>lpc = L_Serving PlainHTTP, srv = Some sample_server,
                               err = None, wpc = W_Start\<rparr>],
                 mpc = M_Wait, closed = False, received = []\<rparr>,
                new_fleet [sample_proxy [good_route]]],
      crashed = False\<rparr>"

definition overlap_state :: state where
  "overlap_state =
     \<lparr>active = 1,
      fleets = [\<lparr>cfg = [sample_proxy [good_route]], cpc = C_Returned,
                 listeners = [\<lparr>lpc = L_Exited, srv = Some sample_server,
                               err = Some (OtherError ''address already in use''),
                               wpc = W_Start\<rparr>],
                 mpc = M_Wait, closed = False,
                 received = [(0, OtherError ''address already in use'')]\<rparr>,
                \<lparr>cfg = [sample_proxy [good_route]], cpc = C_Spawn 1,
                 listeners = [\<lparr>lpc = L_Routes, srv = None, err = None, wpc = W_NotStarted\<rparr>],
                 mpc = M_NotStarted, closed = False, received = []\<rparr>],
      crashed = False\<rparr>"


section \<open>Path joining\<close>

lemma HasSuffix_slash: "HasSuffix a ''/'' \<longleftrightarrow> (\<exists>a'. a = a' @ ''/'')"
proof
  assume "HasSuffix a ''/''"
  then have "a = take (length a - 1) a @ ''/''"
    by (metis HasSuffix_def append_take_drop_id length_Cons list.size(3) One_nat_def)
  then show "\<exists>a'. a = a' @ ''/''" ..
next
  assume "\<exists>a'. a = a' @ ''/''"
  then show "HasSuffix a ''/''" by (auto simp: HasSuffix_def)
qed

lemma HasPrefix_slash: "HasPrefix b ''/'' \<longleftrightarrow> (\<exists>b'. b = ''/'' @ b')"
  by (cases b) (auto simp: HasPrefix_def)




lemma join_trimmed: "join a b = TrimSuffix a ''/'' @ ''/'' @ TrimPrefix b ''/''"
proof (cases "HasSuffix a ''/''")
  case True
  then obtain a' where a: "a = a' @ ''/''" by (auto simp: HasSuffix_slash)
  show ?thesis
  proof (cases "HasPrefix b ''/''")
    case True
    then obtain b' where b: "b = ''/'' @ b'" by (auto simp: HasPrefix_slash)
    show ?thesis
      using \<open>HasSuffix a ''/''\<close> \<open>HasPrefix b ''/''\<close>
      by (simp add: join_def TrimSuffix_def TrimPrefix_def a b)
  next
    case False
    with \<open>HasSuffix a ''/''\<close> show ?thesis
      by (simp add: join_def TrimSuffix_def TrimPrefix_def a)
  qed
next
  case False
  show ?thesis
  proof (cases "HasPrefix b ''/''")
    case True
    then obtain b' where b: "b = ''/'' @ b'" by (auto simp: HasPrefix_slash)
    from False True show ?thesis
      by (simp add: join_def TrimSuffix_def TrimPrefix_def b)
  next
    case False
    with \<open>\<not> HasSuffix a ''/''\<close> show ?thesis
      by (simp add: join_def TrimSuffix_def TrimPrefix_def)
  qed
qed

lemma double_slash_before:
  "0 < length x \<and> double_slash_at (x @ ''/'' @ y) (length x - 1) \<longleftrightarrow> HasSuffix x ''/''"
proof (cases x rule: rev_cases)
  case Nil
  then show ?thesis by (simp add: HasSuffix_def)
next
  case (snoc x' c)
  then show ?thesis
    by (auto simp: double_slash_at_def HasSuffix_def nth_append)
qed

lemma double_slash_after:
  "double_slash_at (x @ ''/'' @ y) (length x) \<longleftrightarrow> HasPrefix y ''/''"
proof (cases y)
  case Nil
  then show ?thesis by (simp add: double_slash_at_def HasPrefix_def)
next
  case (Cons c y')
  then show ?thesis
    by (auto simp: double_slash_at_def HasPrefix_def nth_append)
qed

text \<open>
  C6, as the code has it. Whenever one of the two sides offers a slash at the junction,
  the joined path is the left fragment without one final slash, one slash, and the right
  fragment without one leading slash. \<open>join\<close> drops one duplicate and no more: the
  joined path has a double slash at the junction exactly when the left fragment still
  ends with a slash after losing one, or the right fragment still starts with a slash
  after losing one. So there is exactly one slash and no double slash at the junction
  when the left fragment ends with at most one slash and the right fragment starts with
  at most one. The three joins of the specification evaluate to \<open>/api/users\<close>.
\<close>

theorem join_junction:
  assumes "HasSuffix a ''/'' \<or> HasPrefix b ''/''"
  shows "join a b = TrimSuffix a ''/'' @ ''/'' @ TrimPrefix b ''/'' \<and>
         (junction_doubled a b \<longleftrightarrow>
            HasSuffix (TrimSuffix a ''/'') ''/'' \<or> HasPrefix (TrimPrefix b ''/'') ''/'') \<and>
         join ''/api/'' ''/users'' = ''/api/users'' \<and>
         join ''/api'' ''users'' = ''/api/users'' \<and>
         join ''/api/'' ''users'' = ''/api/users''"
proof -
  have "junction_doubled a b \<longleftrightarrow>
          HasSuffix (TrimSuffix a ''/'') ''/'' \<or> HasPrefix (TrimPrefix b ''/'') ''/''"
    unfolding junction_doubled_def Let_def join_trimmed
    using double_slash_before [of "TrimSuffix a ''/''" "TrimPrefix b ''/''"]
      double_slash_after [of "TrimSuffix a ''/''" "TrimPrefix b ''/''"]
    by blast
  then show ?thesis
    using join_trimmed [of a b] by (simp add: join_def HasSuffix_def HasPrefix_def)
qed

theorem join_junction_witness:
  "(HasSuffix ''/api/'' ''/'' \<or> HasPrefix ''/users'' ''/'') \<and>
   join ''/api/'' ''/users'' = ''/api'' @ ''/'' @ ''users'' \<and>
   \<not> junction_doubled ''/api/'' ''/users''"
  using join_junction [of "''/api/''" "''/users''"]
  by (simp add: HasSuffix_def HasPrefix_def TrimSuffix_def TrimPrefix_def)

text \<open>
  C6 as the specification words it fails for a fragment with two slashes at the
  junction: \<open>join\<close> removes one of the three slashes and a double slash is left
  straddling the junction, at the indices 4 and 5 of the result.
\<close>

theorem join_double_slash_counterexample:
  "HasSuffix ''/api/'' ''/'' \<and> HasPrefix ''//users'' ''/'' \<and>
   join ''/api/'' ''//users'' = ''/api//users'' \<and>
   length (TrimSuffix ''/api/'' ''/'') = 4 \<and>
   double_slash_at ''/api//users'' 4 \<and>
   junction_doubled ''/api/'' ''//users''"
  by (simp add: join_def HasSuffix_def HasPrefix_def TrimSuffix_def junction_doubled_def
      double_slash_at_def)

section \<open>Query merging\<close>

text \<open>
  C7. The query of the rewritten request is the target's query, an ampersand and the
  inbound query when both are non-empty, and the non-empty one of the two (or the empty
  string) otherwise.
\<close>

theorem director_query:
  "RawQuery (ReqURL (director t req)) = mergeQuery (RawQuery t) (RawQuery (ReqURL req)) \<and>
   (raw \<noteq> '''' \<and> q \<noteq> '''' \<longrightarrow> mergeQuery raw q = raw @ ''&'' @ q) \<and>
   (raw = '''' \<longrightarrow> mergeQuery raw q = q) \<and>
   (q = '''' \<longrightarrow> mergeQuery raw q = raw) \<and>
   mergeQuery '''' '''' = '''' \<and>
   mergeQuery ''a=1'' '''' = ''a=1'' \<and>
   mergeQuery '''' ''b=2'' = ''b=2'' \<and>
   mergeQuery ''a=1'' ''b=2'' = ''a=1&b=2''"
  by (simp add: director_def mergeQuery_def Let_def split: option.split)

theorem director_query_witness:
  "RawQuery (ReqURL (director \<lparr>Scheme = ''http'', Host = ''backend:9000'', Path = ''/'', RawQuery = ''a=1''\<rparr>
      \<lparr>ReqHost = ''front'', Header = Map.empty,
       ReqURL = \<lparr>Scheme = '''', Host = '''', Path = ''/x'', RawQuery = ''b=2''\<rparr>\<rparr>)) = ''a=1&b=2'' \<and>
   ''a=1'' \<noteq> '''' \<and> ''b=2'' \<noteq> '''' \<and> mergeQuery ''a=1'' ''b=2'' = ''a=1'' @ ''&'' @ ''b=2''"
  using director_query [of "\<lparr>Scheme = ''http'', Host = ''backend:9000'', Path = ''/'', RawQuery = ''a=1''\<rparr>"
      "\<lparr>ReqHost = ''front'', Header = Map.empty,
        ReqURL = \<lparr>Scheme = '''', Host = '''', Path = ''/x'', RawQuery = ''b=2''\<rparr>\<rparr>" "''a=1''" "''b=2''"]
  by simp

section \<open>The invariants hold in every reachable state\<close>

lemma sum_list_map_update:
  "i < length xs \<Longrightarrow> sum_list (map h (xs[i := y])) + h (xs ! i) = sum_list (map h xs) + (h y :: nat)"
proof (induction xs arbitrary: i)
  case Nil
  then show ?case by simp
next
  case (Cons x xs)
  then show ?case by (cases i) auto
qed

lemma counter_upd_fleet:
  assumes "k < length (fleets s)"
  shows "sum_list (map pending (fleets (upd_fleet k g s))) + pending (fleets s ! k) =
         sum_list (map pending (fleets s)) + pending (g (fleets s ! k))"
  using sum_list_map_update [OF assms, of pending "g (fleets s ! k)"]
  by (simp add: upd_fleet_def)

lemma undone_upd_listener:
  assumes "i < length (listeners f)"
  shows "sum_list (map undone (listeners (upd_listener i g f))) + undone (listeners f ! i) =
         sum_list (map undone (listeners f)) + undone (g (listeners f ! i))"
  using sum_list_map_update [OF assms, of undone "g (listeners f ! i)"]
  by (simp add: upd_listener_def)

lemma inv_upd_fleet:
  assumes "state_ok parse s" "k < length (fleets s)"
    and "fleet_inv parse (g (fleets s ! k))"
    and "pending (g (fleets s ! k)) + active s = pending (fleets s ! k) + n"
  shows "state_ok parse (upd_fleet k g (s\<lparr>active := n\<rparr>))"
proof -
  have "sum_list (map pending (fleets (upd_fleet k g s))) + pending (fleets s ! k) =
         sum_list (map pending (fleets s)) + pending (g (fleets s ! k))"
    using assms(2) by (rule counter_upd_fleet)
  moreover have "active s = sum_list (map pending (fleets s))"
    using assms(1) by (simp add: state_ok_def counter_ok_def)
  ultimately have "n = sum_list (map pending (fleets (upd_fleet k g s)))"
    using assms(4) by simp
  then have "counter_ok (upd_fleet k g (s\<lparr>active := n\<rparr>))"
    by (simp add: counter_ok_def upd_fleet_def)
  moreover have "\<forall>k'<length (fleets (upd_fleet k g (s\<lparr>active := n\<rparr>))).
      fleet_inv parse (fleets (upd_fleet k g (s\<lparr>active := n\<rparr>)) ! k')"
    using assms(1,2,3) by (auto simp: upd_fleet_def state_ok_def nth_list_update)
  ultimately show ?thesis by (simp add: state_ok_def)
qed

lemma inv_upd_fleet_same:
  assumes "state_ok parse s" "k < length (fleets s)"
    and "fleet_inv parse (g (fleets s ! k))"
    and "pending (g (fleets s ! k)) = pending (fleets s ! k)"
  shows "state_ok parse (upd_fleet k g s)"
  using inv_upd_fleet [of parse s k g "active s"] assms by simp

lemma upd_listener_simps [simp]:
  "cfg (upd_listener i g f) = cfg f"
  "cpc (upd_listener i g f) = cpc f"
  "mpc (upd_listener i g f) = mpc f"
  "closed (upd_listener i g f) = closed f"
  "received (upd_listener i g f) = received f"
  "length (listeners (upd_listener i g f)) = length (listeners f)"
  "sent_by j (upd_listener i g f) = sent_by j f"
  by (simp_all add: upd_listener_def sent_by_def)

lemma upd_listener_nth:
  "j < length (listeners f) \<Longrightarrow>
   listeners (upd_listener i g f) ! j = (if j = i then g (listeners f ! i) else listeners f ! j)"
  by (simp add: upd_listener_def nth_list_update)

lemma sent_by_simps [simp]:
  "sent_by j (f\<lparr>cpc := c\<rparr>) = sent_by j f"
  "sent_by j (f\<lparr>mpc := m\<rparr>) = sent_by j f"
  "sent_by j (f\<lparr>closed := b\<rparr>) = sent_by j f"
  "sent_by j (f\<lparr>listeners := ls\<rparr>) = sent_by j f"
  "sent_by j (f\<lparr>received := received f @ [(i, e)]\<rparr>) = (if i = j then sent_by j f @ [e] else sent_by j f)"
  by (simp_all add: sent_by_def)

lemma undone_all_not_started:
  "(\<forall>i<length ls. lpc (ls ! i) = L_NotStarted) \<Longrightarrow> sum_list (map undone ls) = length ls"
proof (induction ls)
  case Nil
  then show ?case by simp
next
  case (Cons l ls)
  from Cons.prems have "lpc l = L_NotStarted" by auto
  moreover from Cons.prems have "\<forall>i<length ls. lpc (ls ! i) = L_NotStarted" by auto
  ultimately show ?case using Cons.IH by (simp add: undone_def)
qed

lemma undone_zero_iff:
  "sum_list (map undone ls) = 0 \<longleftrightarrow> (\<forall>i<length ls. lpc (ls ! i) = L_Exited)"
proof (induction ls)
  case Nil
  then show ?case by simp
next
  case (Cons l ls)
  have "sum_list (map undone (l # ls)) = 0 \<longleftrightarrow>
        lpc l = L_Exited \<and> (\<forall>i<length ls. lpc (ls ! i) = L_Exited)"
    using Cons.IH by (simp add: undone_def)
  also have "\<dots> \<longleftrightarrow> (\<forall>i<length (l # ls). lpc ((l # ls) ! i) = L_Exited)"
    by (auto simp: less_Suc_eq_0_disj)
  finally show ?case .
qed

lemma Proxy_step_inv:
  assumes "state_ok parse s" "k < length (fleets s)" "Proxy_step k s = Some s'"
  shows "state_ok parse s'"
proof -
  let ?f = "fleets s ! k"
  have fi: "fleet_inv parse ?f" using assms(1,2) by (simp add: state_ok_def)
  show ?thesis
  proof (cases "cpc ?f")
    case C_Wait
    with assms(3) have s': "s' = upd_fleet k (\<lambda>f. f\<lparr>cpc := C_Add\<rparr>) s"
      by (simp add: Proxy_step_def split: if_splits)
    show ?thesis unfolding s'
      using fi C_Wait
      by (intro inv_upd_fleet_same [OF assms(1,2)])
         (auto simp: fleet_inv_def fleet_ok_def pending_def)
  next
    case C_Add
    with assms(3) have s': "s' = upd_fleet k (\<lambda>f. f\<lparr>cpc := C_Spawn 0\<rparr>) (s\<lparr>active := active s + length (cfg ?f)\<rparr>)"
      by (simp add: Proxy_step_def)
    have "sum_list (map undone (listeners ?f)) = length (cfg ?f)"
      using fi C_Add undone_all_not_started [of "listeners ?f"]
      by (simp add: fleet_inv_def fleet_ok_def)
    then show ?thesis unfolding s'
      using fi C_Add
      by (intro inv_upd_fleet [OF assms(1,2)])
         (auto simp: fleet_inv_def fleet_ok_def pending_def)
  next
    case (C_Spawn n)
    show ?thesis
    proof (cases "n < length (cfg ?f)")
      case True
      with assms(3) C_Spawn have s': "s' = upd_fleet k
          (\<lambda>f. (upd_listener n (\<lambda>l. l\<lparr>lpc := L_Routes\<rparr>) f)\<lparr>cpc := C_Spawn (Suc n)\<rparr>) s"
        by (simp add: Proxy_step_def)
      have n: "n < length (listeners ?f)" and ns: "lpc (listeners ?f ! n) = L_NotStarted"
        using fi C_Spawn True by (auto simp: fleet_inv_def fleet_ok_def)
      have u: "sum_list (map undone (listeners (upd_listener n (\<lambda>l. l\<lparr>lpc := L_Routes\<rparr>) ?f))) =
               sum_list (map undone (listeners ?f))"
        using undone_upd_listener [OF n, of "\<lambda>l. l\<lparr>lpc := L_Routes\<rparr>"] ns
        by (simp add: undone_def)
      show ?thesis unfolding s'
        using fi C_Spawn True n ns u
        by (intro inv_upd_fleet_same [OF assms(1,2)])
           (auto simp: fleet_inv_def fleet_ok_def pending_def upd_listener_nth listener_ok_def)
    next
      case False
      with assms(3) C_Spawn have s': "s' = upd_fleet k (\<lambda>f. f\<lparr>mpc := M_Wait, cpc := C_Returned\<rparr>) s"
        by (simp add: Proxy_step_def)
      show ?thesis unfolding s'
        using fi C_Spawn False
        by (intro inv_upd_fleet_same [OF assms(1,2)])
           (auto simp: fleet_inv_def fleet_ok_def pending_def)
    qed
  next
    case C_Returned
    with assms(3) show ?thesis by (simp add: Proxy_step_def)
  qed
qed

lemma inv_panic: "state_ok parse s \<Longrightarrow> state_ok parse (panic s)"
  by (simp add: state_ok_def counter_ok_def panic_def)

lemma fleet_ok_received [simp]: "fleet_ok (f\<lparr>received := x\<rparr>) = fleet_ok f"
  by (cases "cpc f") (simp_all add: fleet_ok_def)

lemma pending_received [simp]: "pending (f\<lparr>received := x\<rparr>) = pending f"
  by (simp add: pending_def)

lemma fleet_ok_upd_listener:
  assumes "fleet_ok f" "i < length (listeners f)"
    and "lpc (listeners f ! i) \<noteq> L_NotStarted" "lpc (listeners f ! i) \<noteq> L_Exited"
    and "lpc (h (listeners f ! i)) \<noteq> L_NotStarted"
  shows "fleet_ok (upd_listener i h f)"
  using assms
  by (cases "cpc f") (auto simp: fleet_ok_def upd_listener_nth)

lemma fleet_ok_upd_listener_same:
  assumes "fleet_ok f" "i < length (listeners f)"
    and "lpc (h (listeners f ! i)) = lpc (listeners f ! i)"
  shows "fleet_ok (upd_listener i h f)"
  using assms
  by (cases "cpc f") (auto simp: fleet_ok_def upd_listener_nth)

lemma pending_upd_listener:
  assumes "i < length (listeners f)"
    and "undone (h (listeners f ! i)) = undone (listeners f ! i)"
  shows "pending (upd_listener i h f) = pending f"
  using undone_upd_listener [OF assms(1), of h] assms(2)
  by (simp add: pending_def)

lemma fleet_inv_send:
  assumes "fleet_inv parse f" "i < length (listeners f)"
    and "lpc (listeners f ! i) \<noteq> L_NotStarted" "lpc (listeners f ! i) \<noteq> L_Exited"
    and "lpc (h (listeners f ! i)) \<noteq> L_NotStarted"
    and "listener_ok parse (cfg f ! i) (sent_by i f @ [e]) (h (listeners f ! i))"
  shows "fleet_inv parse ((upd_listener i h f)\<lparr>received := received f @ [(i, e)]\<rparr>)"
proof -
  have "fleet_ok (upd_listener i h f)"
    using assms(1-5) by (intro fleet_ok_upd_listener) (simp_all add: fleet_inv_def)
  moreover have "listener_ok parse (cfg f ! j)
      (sent_by j ((upd_listener i h f)\<lparr>received := received f @ [(i, e)]\<rparr>))
      (listeners (upd_listener i h f) ! j)" if "j < length (listeners f)" for j
    using that assms(1,2,6) by (auto simp: fleet_inv_def upd_listener_nth sent_by_def)
  ultimately show ?thesis by (simp add: fleet_inv_def)
qed

lemma fleet_inv_local:
  assumes "fleet_inv parse f" "i < length (listeners f)"
    and "lpc (listeners f ! i) \<noteq> L_NotStarted" "lpc (listeners f ! i) \<noteq> L_Exited"
    and "lpc (h (listeners f ! i)) \<noteq> L_NotStarted"
    and "listener_ok parse (cfg f ! i) (sent_by i f) (h (listeners f ! i))"
  shows "fleet_inv parse (upd_listener i h f)"
proof -
  have "fleet_ok (upd_listener i h f)"
    using assms(1-5) by (intro fleet_ok_upd_listener) (simp_all add: fleet_inv_def)
  moreover have "listener_ok parse (cfg f ! j) (sent_by j f) (listeners (upd_listener i h f) ! j)"
    if "j < length (listeners f)" for j
    using that assms(1,2,6) by (auto simp: fleet_inv_def upd_listener_nth)
  ultimately show ?thesis by (simp add: fleet_inv_def)
qed

lemma fleet_inv_watcher:
  assumes "fleet_inv parse f" "i < length (listeners f)"
    and "lpc (h (listeners f ! i)) = lpc (listeners f ! i)"
    and "listener_ok parse (cfg f ! i) (sent_by i f) (h (listeners f ! i))"
  shows "fleet_inv parse (upd_listener i h f)"
proof -
  have "fleet_ok (upd_listener i h f)"
    using assms(1-3) by (intro fleet_ok_upd_listener_same) (simp_all add: fleet_inv_def)
  moreover have "listener_ok parse (cfg f ! j) (sent_by j f) (listeners (upd_listener i h f) ! j)"
    if "j < length (listeners f)" for j
    using that assms(1,2,4) by (auto simp: fleet_inv_def upd_listener_nth)
  ultimately show ?thesis by (simp add: fleet_inv_def)
qed

lemma Routes_step_inv:
  assumes "state_ok parse s" "on_listener k i s" "Routes_step parse k i s = Some s'"
  shows "state_ok parse s'"
proof -
  let ?f = "fleets s ! k"
  let ?l = "listeners ?f ! i"
  have k: "k < length (fleets s)" and i: "i < length (listeners ?f)"
    using assms(2) by (simp_all add: on_listener_def)
  have fi: "fleet_inv parse ?f" using assms(1) k by (simp add: state_ok_def)
  have pc: "lpc ?l = L_Routes"
    using assms(3) by (simp add: Routes_step_def Let_def split: lpc.splits)
  have lo: "listener_ok parse (cfg ?f ! i) (sent_by i ?f) ?l"
    using fi i by (simp add: fleet_inv_def)
  show ?thesis
  proof (cases "routes_loop parse (Routes (cfg ?f ! i)) Map.empty")
    case Panicked
    with assms(3) pc have "s' = panic s" by (simp add: Routes_step_def)
    then show ?thesis using assms(1) by (simp add: inv_panic)
  next
    case (ConfigError e)
    with assms(3) pc have s': "s' = upd_fleet k (upd_listener i (\<lambda>l. l\<lparr>lpc := L_SendConfigErr e\<rparr>)) s"
      by (simp add: Routes_step_def)
    show ?thesis unfolding s'
    proof (rule inv_upd_fleet_same [OF assms(1) k])
      show "fleet_inv parse (upd_listener i (\<lambda>l. l\<lparr>lpc := L_SendConfigErr e\<rparr>) ?f)"
        using fi i pc lo ConfigError
        by (intro fleet_inv_local) (simp_all add: listener_ok_def)
      show "pending (upd_listener i (\<lambda>l. l\<lparr>lpc := L_SendConfigErr e\<rparr>) ?f) = pending ?f"
        using i pc by (intro pending_upd_listener) (simp_all add: undone_def)
    qed
  next
    case (Built mux)
    let ?h = "\<lambda>l. l\<lparr>lpc := L_Serving (serve_proto (cfg ?f ! i)),
                     srv := Some \<lparr>Addr = Port (cfg ?f ! i), Handler = mux, inShutdown = False\<rparr>,
                     wpc := W_Start\<rparr>"
    from Built assms(3) pc have s': "s' = upd_fleet k (upd_listener i ?h) s"
      by (simp add: Routes_step_def Let_def)
    show ?thesis unfolding s'
    proof (rule inv_upd_fleet_same [OF assms(1) k])
      show "fleet_inv parse (upd_listener i ?h ?f)"
        using fi i pc lo Built
        by (intro fleet_inv_local) (simp_all add: listener_ok_def)
      show "pending (upd_listener i ?h ?f) = pending ?f"
        using i pc by (intro pending_upd_listener) (simp_all add: undone_def)
    qed
  qed
qed

lemma Send_step_inv:
  assumes "state_ok parse s" "on_listener k i s" "Send_step k i s = Some s'"
  shows "state_ok parse s'"
proof -
  let ?f = "fleets s ! k"
  let ?l = "listeners ?f ! i"
  have k: "k < length (fleets s)" and i: "i < length (listeners ?f)"
    using assms(2) by (simp_all add: on_listener_def)
  have fi: "fleet_inv parse ?f" using assms(1) k by (simp add: state_ok_def)
  have lo: "listener_ok parse (cfg ?f ! i) (sent_by i ?f) ?l"
    using fi i by (simp add: fleet_inv_def)
  show ?thesis
  proof (cases "closed ?f")
    case True
    with assms(3) have "s' = panic s"
      by (simp add: Send_step_def Let_def split: lpc.splits option.splits)
    then show ?thesis using assms(1) by (simp add: inv_panic)
  next
    case False
    consider (cfg) e where "lpc ?l = L_SendConfigErr e"
      | (srv) e where "lpc ?l = L_SendErr" "err ?l = Some e"
      using assms(3) by (auto simp: Send_step_def Let_def split: lpc.splits option.splits)
    then show ?thesis
    proof cases
      case cfg
      let ?h = "\<lambda>l. l\<lparr>lpc := L_Aborted\<rparr>"
      from cfg False assms(3) have s': "s' = upd_fleet k
          (\<lambda>f. (upd_listener i ?h f)\<lparr>received := received f @ [(i, e)]\<rparr>) s"
        by (simp add: Send_step_def Let_def)
      show ?thesis unfolding s'
      proof (rule inv_upd_fleet_same [OF assms(1) k])
        show "fleet_inv parse ((upd_listener i ?h ?f)\<lparr>received := received ?f @ [(i, e)]\<rparr>)"
          using fi i cfg lo by (intro fleet_inv_send) (simp_all add: listener_ok_def)
        show "pending ((upd_listener i ?h ?f)\<lparr>received := received ?f @ [(i, e)]\<rparr>) = pending ?f"
          using pending_upd_listener [OF i, of ?h] cfg by (simp add: undone_def)
      qed
    next
      case srv
      let ?h = "\<lambda>l. l\<lparr>lpc := L_Done\<rparr>"
      from srv False assms(3) have s': "s' = upd_fleet k
          (\<lambda>f. (upd_listener i ?h f)\<lparr>received := received f @ [(i, e)]\<rparr>) s"
        by (simp add: Send_step_def Let_def)
      show ?thesis unfolding s'
      proof (rule inv_upd_fleet_same [OF assms(1) k])
        show "fleet_inv parse ((upd_listener i ?h ?f)\<lparr>received := received ?f @ [(i, e)]\<rparr>)"
          using fi i srv lo
          by (intro fleet_inv_send) (auto simp: listener_ok_def reported_def split: if_splits)
        show "pending ((upd_listener i ?h ?f)\<lparr>received := received ?f @ [(i, e)]\<rparr>) = pending ?f"
          using pending_upd_listener [OF i, of ?h] srv by (simp add: undone_def)
      qed
    qed
  qed
qed

lemma Serve_return_inv:
  assumes "state_ok parse s" "on_listener k i s" "Serve_return k i e s = Some s'"
  shows "state_ok parse s'"
proof -
  let ?f = "fleets s ! k"
  let ?l = "listeners ?f ! i"
  let ?h = "\<lambda>l. l\<lparr>err := e,
                   lpc := (if e \<noteq> None \<and> e \<noteq> Some ErrServerClosed then L_SendErr else L_Done)\<rparr>"
  have k: "k < length (fleets s)" and i: "i < length (listeners ?f)"
    using assms(2) by (simp_all add: on_listener_def)
  have fi: "fleet_inv parse ?f" using assms(1) k by (simp add: state_ok_def)
  have lo: "listener_ok parse (cfg ?f ! i) (sent_by i ?f) ?l"
    using fi i by (simp add: fleet_inv_def)
  obtain p sv where pc: "lpc ?l = L_Serving p" "srv ?l = Some sv"
    using assms(3) by (auto simp: Serve_return_def Let_def split: lpc.splits option.splits)
  with assms(3) have s': "s' = upd_fleet k (upd_listener i ?h) s"
    by (cases "(e = Some ErrServerClosed) = inShutdown sv") (simp_all add: Serve_return_def Let_def)
  show ?thesis unfolding s'
  proof (rule inv_upd_fleet_same [OF assms(1) k])
    show "fleet_inv parse (upd_listener i ?h ?f)"
      using fi i pc lo
      by (intro fleet_inv_local)
         (auto simp: listener_ok_def reported_def built_def split: routes_result.splits)
    show "pending (upd_listener i ?h ?f) = pending ?f"
      using i pc by (intro pending_upd_listener) (simp_all add: undone_def)
  qed
qed

lemma pending_pos:
  assumes "fleet_ok f" "i < length (listeners f)"
    and "lpc (listeners f ! i) \<noteq> L_NotStarted" "lpc (listeners f ! i) \<noteq> L_Exited"
  shows "pending f = sum_list (map undone (listeners f))" "0 < pending f"
proof -
  show p: "pending f = sum_list (map undone (listeners f))"
    using assms(1-3) by (cases "cpc f") (auto simp: fleet_ok_def pending_def)
  have "\<not> sum_list (map undone (listeners f)) = 0"
    unfolding undone_zero_iff using assms(2,4) by blast
  then show "0 < pending f" unfolding p by (rule neq0_conv [THEN iffD1])
qed

lemma Done_step_inv:
  assumes "state_ok parse s" "on_listener k i s" "Done_step k i s = Some s'"
  shows "state_ok parse s'"
proof -
  let ?f = "fleets s ! k"
  let ?l = "listeners ?f ! i"
  let ?h = "\<lambda>l. l\<lparr>lpc := L_Exited\<rparr>"
  have k: "k < length (fleets s)" and i: "i < length (listeners ?f)"
    using assms(2) by (simp_all add: on_listener_def)
  have fi: "fleet_inv parse ?f" using assms(1) k by (simp add: state_ok_def)
  have lo: "listener_ok parse (cfg ?f ! i) (sent_by i ?f) ?l"
    using fi i by (simp add: fleet_inv_def)
  have pc: "lpc ?l = L_Done"
    using assms(3) by (simp add: Done_step_def split: lpc.splits)
  show ?thesis
  proof (cases "active s = 0")
    case True
    with assms(3) pc have "s' = panic s" by (simp add: Done_step_def)
    then show ?thesis using assms(1) by (simp add: inv_panic)
  next
    case False
    with assms(3) pc have s': "s' = upd_fleet k (upd_listener i ?h) (s\<lparr>active := active s - 1\<rparr>)"
      by (simp add: Done_step_def)
    have fo: "fleet_ok ?f" using fi by (simp add: fleet_inv_def)
    have p: "pending ?f = sum_list (map undone (listeners ?f))"
      using pending_pos(1) [OF fo i] pc by simp
    have ok': "fleet_ok (upd_listener i ?h ?f)"
      using fo i pc by (intro fleet_ok_upd_listener) simp_all
    have "lpc (listeners (upd_listener i ?h ?f) ! i) = L_Exited"
      using i by (simp add: upd_listener_nth)
    then have p': "pending (upd_listener i ?h ?f) = sum_list (map undone (listeners (upd_listener i ?h ?f)))"
      using ok' i by (cases "cpc ?f") (auto simp: fleet_ok_def pending_def)
    have "sum_list (map undone (listeners (upd_listener i ?h ?f))) + 1 =
          sum_list (map undone (listeners ?f))"
      using undone_upd_listener [OF i, of ?h] pc by (simp add: undone_def)
    with p p' have pp: "pending (upd_listener i ?h ?f) + 1 = pending ?f" by simp
    show ?thesis unfolding s'
    proof (rule inv_upd_fleet [OF assms(1) k])
      show "fleet_inv parse (upd_listener i ?h ?f)"
        using fi i pc lo by (intro fleet_inv_local) (simp_all add: listener_ok_def)
      show "pending (upd_listener i ?h ?f) + active s = pending ?f + (active s - 1)"
        using pp False by simp
    qed
  qed
qed

lemma listener_ok_watcher:
  assumes "listener_ok parse r sent l"
  shows "listener_ok parse r sent (l\<lparr>wpc := w\<rparr>)"
    and "listener_ok parse r sent
           (l\<lparr>srv := map_option (\<lambda>sv. sv\<lparr>inShutdown := True\<rparr>) (srv l), wpc := w\<rparr>)"
  using assms
  by (cases "lpc l"; auto simp: listener_ok_def split: routes_result.splits option.splits)+

lemma watcher_inv:
  assumes "state_ok parse s" "on_listener k i s"
    and "\<And>l. lpc (h l) = lpc l"
    and "\<And>r sent l. listener_ok parse r sent l \<Longrightarrow> listener_ok parse r sent (h l)"
  shows "state_ok parse (upd_fleet k (upd_listener i h) s)"
proof -
  let ?f = "fleets s ! k"
  have k: "k < length (fleets s)" and i: "i < length (listeners ?f)"
    using assms(2) by (simp_all add: on_listener_def)
  have fi: "fleet_inv parse ?f" using assms(1) k by (simp add: state_ok_def)
  show ?thesis
  proof (rule inv_upd_fleet_same [OF assms(1) k])
    show "fleet_inv parse (upd_listener i h ?f)"
      using fi i assms(3,4) by (intro fleet_inv_watcher) (simp_all add: fleet_inv_def)
    show "pending (upd_listener i h ?f) = pending ?f"
      using i assms(3) by (intro pending_upd_listener) (simp_all add: undone_def)
  qed
qed

lemma Watcher_start_inv:
  assumes "state_ok parse s" "on_listener k i s" "Watcher_start k i s = Some s'"
  shows "state_ok parse s'"
proof -
  let ?h = "\<lambda>l. l\<lparr>wpc := (if Stop (cfg (fleets s ! k) ! i) = None then W_Returned else W_Select)\<rparr>"
  from assms(3) have "s' = upd_fleet k (upd_listener i ?h) s"
    by (simp add: Watcher_start_def Let_def split: wpc.splits split del: if_split)
  then show ?thesis
    using watcher_inv [OF assms(1,2), of ?h] by (simp add: listener_ok_watcher)
qed

lemma Stop_recv_inv:
  assumes "state_ok parse s" "on_listener k i s" "Stop_recv k i v res s = Some s'"
  shows "state_ok parse s'"
proof (cases v)
  case False
  with assms(3) have "s' = s"
    by (simp add: Stop_recv_def Let_def split: wpc.splits)
  then show ?thesis using assms(1) by simp
next
  case True
  let ?h = "\<lambda>l. l\<lparr>srv := map_option (\<lambda>sv. sv\<lparr>inShutdown := True\<rparr>) (srv l), wpc := W_Returned\<rparr>"
  from True assms(3) have "s' = upd_fleet k (upd_listener i ?h) s"
    by (simp add: Stop_recv_def Let_def split: wpc.splits if_splits)
  then show ?thesis
    using watcher_inv [OF assms(1,2), of ?h] by (simp add: listener_ok_watcher)
qed

lemma Stop_closed_inv:
  assumes "state_ok parse s" "on_listener k i s" "Stop_closed k i s = Some s'"
  shows "state_ok parse s'"
proof -
  let ?h = "\<lambda>l. l\<lparr>wpc := W_Returned\<rparr>"
  from assms(3) have "s' = upd_fleet k (upd_listener i ?h) s"
    by (simp add: Stop_closed_def split: wpc.splits)
  then show ?thesis
    using watcher_inv [OF assms(1,2), of ?h] by (simp add: listener_ok_watcher)
qed

lemma counter_zero:
  assumes "state_ok parse s" "active s = 0" "k < length (fleets s)"
  shows "pending (fleets s ! k) = 0"
proof -
  have "sum_list (map pending (fleets s)) = 0"
    using assms(1,2) by (simp add: state_ok_def counter_ok_def)
  then have "\<forall>n\<in>set (map pending (fleets s)). n = 0"
    by (simp only: sum_list_eq_0_iff)
  moreover have "pending (fleets s ! k) \<in> set (map pending (fleets s))"
    using assms(3) by simp
  ultimately show ?thesis by blast
qed

lemma Monitor_step_inv:
  assumes "state_ok parse s" "k < length (fleets s)" "Monitor_step k s = Some s'"
  shows "state_ok parse s'"
proof -
  let ?f = "fleets s ! k"
  have fi: "fleet_inv parse ?f" using assms(1,2) by (simp add: state_ok_def)
  consider (wait) "mpc ?f = M_Wait" "active s = 0" | (close) "mpc ?f = M_Close"
    using assms(3) by (auto simp: Monitor_step_def Let_def split: mpc.splits if_splits)
  then show ?thesis
  proof cases
    case wait
    with assms(3) have s': "s' = upd_fleet k (\<lambda>f. f\<lparr>mpc := M_Close\<rparr>) s"
      by (simp add: Monitor_step_def)
    have ret: "cpc ?f = C_Returned"
      using fi wait(1) by (cases "cpc ?f") (auto simp: fleet_inv_def fleet_ok_def)
    have "pending ?f = 0" using assms(1) wait(2) assms(2) by (rule counter_zero)
    with ret have "sum_list (map undone (listeners ?f)) = 0" by (simp add: pending_def)
    then have ex: "\<forall>i<length (listeners ?f). lpc (listeners ?f ! i) = L_Exited"
      by (simp only: undone_zero_iff)
    show ?thesis unfolding s'
      using fi wait ret ex
      by (intro inv_upd_fleet_same [OF assms(1,2)])
         (auto simp: fleet_inv_def fleet_ok_def pending_def)
  next
    case close
    show ?thesis
    proof (cases "closed ?f")
      case True
      with close assms(3) have "s' = panic s" by (simp add: Monitor_step_def)
      then show ?thesis using assms(1) by (simp add: inv_panic)
    next
      case False
      with close assms(3) have s': "s' = upd_fleet k (\<lambda>f. f\<lparr>closed := True, mpc := M_Exited\<rparr>) s"
        by (simp add: Monitor_step_def)
      show ?thesis unfolding s'
        using fi close
        by (intro inv_upd_fleet_same [OF assms(1,2)])
           (cases "cpc ?f"; auto simp: fleet_inv_def fleet_ok_def pending_def)+
    qed
  qed
qed

lemma fleet_inv_new: "fleet_inv parse (new_fleet p)"
  by (simp add: fleet_inv_def fleet_ok_def new_fleet_def listener_ok_def new_listener_def
      sent_by_def)

lemma Call_inv:
  assumes "state_ok parse s"
  shows "state_ok parse (s\<lparr>fleets := fleets s @ [new_fleet p]\<rparr>)"
proof -
  have "pending (new_fleet p) = 0" by (simp add: pending_def new_fleet_def)
  then have "counter_ok (s\<lparr>fleets := fleets s @ [new_fleet p]\<rparr>)"
    using assms by (simp add: state_ok_def counter_ok_def)
  moreover have "fleet_inv parse ((fleets s @ [new_fleet p]) ! k)"
    if "k < Suc (length (fleets s))" for k
    using that assms by (cases "k < length (fleets s)") (auto simp: nth_append state_ok_def fleet_inv_new)
  ultimately show ?thesis by (simp add: state_ok_def)
qed

lemma step_inv:
  assumes "state_ok parse s" "step parse s a = Some s'"
  shows "state_ok parse s'"
proof -
  from assms(2) have ex: "exec parse s a = Some s'"
    by (simp add: step_def split: if_splits)
  show ?thesis
  proof (cases a)
    case (Call p)
    with ex assms(1) show ?thesis using Call_inv by auto
  next
    case (ProxyStep k)
    with ex assms(1) show ?thesis by (auto intro: Proxy_step_inv split: if_splits)
  next
    case (RoutesStep k i)
    with ex assms(1) show ?thesis by (auto intro: Routes_step_inv split: if_splits)
  next
    case (Send k i)
    with ex assms(1) show ?thesis by (auto intro: Send_step_inv split: if_splits)
  next
    case (ServeReturn k i e)
    with ex assms(1) show ?thesis by (auto intro: Serve_return_inv split: if_splits)
  next
    case (Done k i)
    with ex assms(1) show ?thesis by (auto intro: Done_step_inv split: if_splits)
  next
    case (WatcherStart k i)
    with ex assms(1) show ?thesis by (auto intro: Watcher_start_inv split: if_splits)
  next
    case (StopRecv k i v res)
    with ex assms(1) show ?thesis by (auto intro: Stop_recv_inv split: if_splits)
  next
    case (StopClosed k i)
    with ex assms(1) show ?thesis by (auto intro: Stop_closed_inv split: if_splits)
  next
    case (MonitorStep k)
    with ex assms(1) show ?thesis by (auto intro: Monitor_step_inv split: if_splits)
  qed
qed

lemma run_inv: "state_ok parse s \<Longrightarrow> run parse s acts = Some s' \<Longrightarrow> state_ok parse s'"
proof (induction acts arbitrary: s)
  case Nil
  then show ?case by simp
next
  case (Cons a acts)
  then show ?case by (auto split: option.splits dest: step_inv)
qed

lemma inv_init: "state_ok parse init"
  by (simp add: state_ok_def init_def counter_ok_def)

lemma reachable_inv: "run parse init acts = Some s \<Longrightarrow> state_ok parse s"
  using run_inv [OF inv_init] .

section \<open>Reachable states\<close>

lemmas step_defs = step_def on_listener_def Proxy_step_def Routes_step_def Send_step_def
  Serve_return_def Done_step_def Watcher_start_def Stop_recv_def Stop_closed_def Monitor_step_def
  upd_fleet_def upd_listener_def panic_def Let_def

lemmas sample_defs = sample_parse_def sample_proxy_def good_route_def bad_route_def
  init_def new_fleet_def new_listener_def

lemma reachable_listener_ok:
  assumes "run parse init acts = Some s" "on_listener k i s"
  shows "listener_ok parse (cfg (fleets s ! k) ! i) (sent_by i (fleets s ! k))
           (listeners (fleets s ! k) ! i)"
  using reachable_inv [OF assms(1)] assms(2)
  by (simp add: state_ok_def fleet_inv_def on_listener_def)

lemma reachable_fleet_ok:
  assumes "run parse init acts = Some s" "k < length (fleets s)"
  shows "fleet_ok (fleets s ! k)"
  using reachable_inv [OF assms(1)] assms(2)
  by (simp add: state_ok_def fleet_inv_def)

lemma pending_le_active:
  assumes "state_ok parse s" "k < length (fleets s)"
  shows "pending (fleets s ! k) \<le> active s"
proof -
  have "pending (fleets s ! k) \<in> set (map pending (fleets s))"
    using assms(2) by simp
  then have "pending (fleets s ! k) \<le> sum_list (map pending (fleets s))"
    by (simp add: member_le_sum_list)
  then show ?thesis using assms(1) by (simp add: state_ok_def counter_ok_def)
qed

text \<open>
  The error channel of a fleet is closed only after every listener of that fleet has
  returned through \<open>active.Done()\<close>.
\<close>

lemma closed_after_all_exited:
  assumes "run parse init acts = Some s" "on_listener k i s" "closed (fleets s ! k)"
  shows "lpc (listeners (fleets s ! k) ! i) = L_Exited"
proof -
  have "fleet_ok (fleets s ! k)"
    using assms(1,2) by (intro reachable_fleet_ok) (simp_all add: on_listener_def)
  then show ?thesis using assms(2,3) by (simp add: fleet_ok_def on_listener_def)
qed

section \<open>Listeners that returned on a configuration error\<close>

lemma aborted_stable:
  assumes "step parse s a = Some s'" "on_listener k i s"
    and "lpc (listeners (fleets s ! k) ! i) = L_Aborted" "state_ok parse s"
  shows "on_listener k i s' \<and> lpc (listeners (fleets s' ! k) ! i) = L_Aborted"
proof (cases a)
  case (Call p)
  with assms(1-3) show ?thesis by (auto simp: step_defs nth_append split: if_splits)
next
  case (ProxyStep k')
  have "fleet_ok (fleets s ! k)"
    using assms(2,4) by (simp add: state_ok_def fleet_inv_def on_listener_def)
  then have "lpc (listeners (fleets s ! k) ! n) = L_NotStarted"
    if "cpc (fleets s ! k) = C_Spawn n" "n < length (cfg (fleets s ! k))" for n
    using that by (simp add: fleet_ok_def)
  then have "n \<noteq> i" if "cpc (fleets s ! k) = C_Spawn n" "n < length (cfg (fleets s ! k))" for n
    using that assms(3) by auto
  with ProxyStep assms(1-3) show ?thesis
    by (auto simp: step_defs nth_list_update split: if_splits cpc.splits)
next
  case (RoutesStep k' i')
  with assms(1-3) show ?thesis
    by (auto simp: step_defs nth_list_update split: if_splits lpc.splits routes_result.splits)
next
  case (Send k' i')
  with assms(1-3) show ?thesis
    by (auto simp: step_defs nth_list_update split: if_splits lpc.splits option.splits)
next
  case (ServeReturn k' i' e)
  with assms(1-3) show ?thesis
    by (auto simp: step_defs nth_list_update split: if_splits lpc.splits option.splits)
next
  case (Done k' i')
  with assms(1-3) show ?thesis
    by (auto simp: step_defs nth_list_update split: if_splits lpc.splits)
next
  case (WatcherStart k' i')
  with assms(1-3) show ?thesis
    by (auto simp: step_defs nth_list_update split: if_splits wpc.splits)
next
  case (StopRecv k' i' v res)
  with assms(1-3) show ?thesis
    by (auto simp: step_defs nth_list_update split: if_splits wpc.splits)
next
  case (StopClosed k' i')
  with assms(1-3) show ?thesis
    by (auto simp: step_defs nth_list_update split: if_splits wpc.splits)
next
  case (MonitorStep k')
  with assms(1-3) show ?thesis
    by (auto simp: step_defs nth_list_update split: if_splits mpc.splits)
qed

lemma aborted_stable_run:
  assumes "run parse s acts = Some s'" "state_ok parse s" "on_listener k i s"
    and "lpc (listeners (fleets s ! k) ! i) = L_Aborted"
  shows "on_listener k i s' \<and> lpc (listeners (fleets s' ! k) ! i) = L_Aborted"
  using assms
proof (induction acts arbitrary: s)
  case Nil
  then show ?case by simp
next
  case (Cons a acts)
  from Cons.prems(1) obtain s1 where s1: "step parse s a = Some s1" "run parse s1 acts = Some s'"
    by (auto split: option.splits)
  have "state_ok parse s1" using Cons.prems(2) s1(1) by (rule step_inv)
  moreover have "on_listener k i s1 \<and> lpc (listeners (fleets s1 ! k) ! i) = L_Aborted"
    using s1(1) Cons.prems(3,4,2) by (rule aborted_stable)
  ultimately show ?case using Cons.IH [OF s1(2)] by simp
qed

lemma aborted_open:
  assumes "state_ok parse s" "on_listener k i s" "lpc (listeners (fleets s ! k) ! i) = L_Aborted"
  shows "\<not> closed (fleets s ! k)" "0 < active s"
proof -
  let ?f = "fleets s ! k"
  have k: "k < length (fleets s)" and i: "i < length (listeners ?f)"
    using assms(2) by (simp_all add: on_listener_def)
  have fo: "fleet_ok ?f" using assms(1) k by (simp add: state_ok_def fleet_inv_def)
  show "\<not> closed ?f"
  proof
    assume "closed ?f"
    with fo have "\<forall>i<length (listeners ?f). lpc (listeners ?f ! i) = L_Exited"
      by (simp add: fleet_ok_def)
    with i assms(3) show False by simp
  qed
  have "lpc (listeners ?f ! i) \<noteq> L_NotStarted" "lpc (listeners ?f ! i) \<noteq> L_Exited"
    by (simp_all add: assms(3))
  then have "0 < pending ?f" by (rule pending_pos(2) [OF fo i])
  moreover have "pending ?f \<le> active s" using assms(1) k by (rule pending_le_active)
  ultimately show "0 < active s" by simp
qed

text \<open>
  C1. A listener that returned at line 144, after a route of its configuration did not
  parse, never calls \<open>active.Done()\<close>: in every state reached afterwards it is still
  there, the counter is positive, the closing goroutine cannot pass its \<open>Wait\<close>, and the
  error channel of the fleet is open. The stream of such a fleet never closes, although
  every listener has terminated.
\<close>

theorem config_error_never_closes:
  assumes "run parse init acts = Some s" "on_listener k i s"
    and "lpc (listeners (fleets s ! k) ! i) = L_Aborted"
    and "run parse s acts' = Some s'"
  shows "lpc (listeners (fleets s' ! k) ! i) = L_Aborted \<and> \<not> closed (fleets s' ! k) \<and>
         0 < active s' \<and> step parse s' (MonitorStep k) = None"
proof -
  have ok: "state_ok parse s" using assms(1) by (rule reachable_inv)
  have ok': "state_ok parse s'" using ok assms(4) by (rule run_inv)
  have st: "on_listener k i s' \<and> lpc (listeners (fleets s' ! k) ! i) = L_Aborted"
    using assms(4) ok assms(2,3) by (rule aborted_stable_run)
  have op: "\<not> closed (fleets s' ! k)" "0 < active s'"
    using aborted_open [OF ok' conjunct1 [OF st] conjunct2 [OF st]] by simp_all
  have fo: "fleet_ok (fleets s' ! k)"
    using ok' st by (simp add: state_ok_def fleet_inv_def on_listener_def)
  have "mpc (fleets s' ! k) \<noteq> M_Close"
    using fo st by (auto simp: fleet_ok_def on_listener_def)
  then have "step parse s' (MonitorStep k) = None"
    using op by (simp add: step_def Monitor_step_def Let_def split: mpc.splits)
  then show ?thesis using st op by simp
qed

lemma hung_run:
  "run sample_parse init
     [Call [sample_proxy [bad_route]], ProxyStep 0, ProxyStep 0, ProxyStep 0, ProxyStep 0,
      RoutesStep 0 0, Send 0 0] = Some hung_state"
  by (simp add: step_defs sample_defs hung_state_def)

theorem config_error_never_closes_witness:
  "run sample_parse init
     [Call [sample_proxy [bad_route]], ProxyStep 0, ProxyStep 0, ProxyStep 0, ProxyStep 0,
      RoutesStep 0 0, Send 0 0] = Some hung_state \<and>
   on_listener 0 0 hung_state \<and>
   lpc (listeners (fleets hung_state ! 0) ! 0) = L_Aborted \<and>
   run sample_parse hung_state [Call []] =
     Some (hung_state\<lparr>fleets := fleets hung_state @ [new_fleet []]\<rparr>) \<and>
   \<not> closed (fleets (hung_state\<lparr>fleets := fleets hung_state @ [new_fleet []]\<rparr>) ! 0) \<and>
   step sample_parse (hung_state\<lparr>fleets := fleets hung_state @ [new_fleet []]\<rparr>) (MonitorStep 0) = None"
proof -
  have h2: "on_listener 0 0 hung_state" by (simp add: on_listener_def hung_state_def)
  have h3: "lpc (listeners (fleets hung_state ! 0) ! 0) = L_Aborted" by (simp add: hung_state_def)
  have h4: "run sample_parse hung_state [Call []] =
            Some (hung_state\<lparr>fleets := fleets hung_state @ [new_fleet []]\<rparr>)"
    by (simp add: step_def hung_state_def)
  show ?thesis
    using config_error_never_closes [OF hung_run h2 h3 h4] hung_run h2 h3 h4 by simp
qed

section \<open>Duplicate patterns\<close>

lemma routes_loop_all_parse:
  assumes "\<forall>r\<in>set routes. \<exists>u. parse (To r) = Inr u"
  shows "routes_loop parse routes mux = Panicked \<longleftrightarrow>
         \<not> distinct (map From routes) \<or> '''' \<in> set (map From routes) \<or>
         (\<exists>r\<in>set routes. mux (From r) \<noteq> None)"
  using assms
proof (induction routes arbitrary: mux)
  case Nil
  then show ?case by simp
next
  case (Cons r routes)
  from Cons.prems obtain u where u: "parse (To r) = Inr u" by auto
  from Cons.prems have rest: "\<forall>r\<in>set routes. \<exists>u. parse (To r) = Inr u" by simp
  show ?case
  proof (cases "Handle mux (From r) u")
    case None
    then have "From r = '''' \<or> mux (From r) \<noteq> None"
      by (auto simp: Handle_def split: if_splits)
    with None u show ?thesis by auto
  next
    case (Some mux')
    then have h: "From r \<noteq> ''''" "mux (From r) = None" "mux' = mux(From r \<mapsto> u)"
      by (auto simp: Handle_def split: if_splits)
    have "routes_loop parse (r # routes) mux = routes_loop parse routes mux'"
      using u Some by simp
    also have "\<dots> = Panicked \<longleftrightarrow>
        \<not> distinct (map From routes) \<or> '''' \<in> set (map From routes) \<or>
        (\<exists>r'\<in>set routes. mux' (From r') \<noteq> None)"
      using rest by (rule Cons.IH)
    also have "\<dots> \<longleftrightarrow>
        \<not> distinct (map From (r # routes)) \<or> '''' \<in> set (map From (r # routes)) \<or>
        (\<exists>r'\<in>set (r # routes). mux (From r') \<noteq> None)"
      using h by (auto simp: image_iff; metis)
    finally show ?thesis .
  qed
qed

text \<open>
  C10. When every target of a listener parses and two of its routes have the same
  pattern, the route loop panics in \<open>ServeMux.Handle\<close>. The step of the listener then
  ends the process: nothing is added to the error channel (the fleets are unchanged),
  and no goroutine of any listener or fleet can take a step afterwards.
\<close>

theorem duplicate_pattern_panics:
  assumes "\<forall>r\<in>set (Routes (cfg (fleets s ! k) ! i)). \<exists>u. parse (To r) = Inr u"
    and "\<not> distinct (map From (Routes (cfg (fleets s ! k) ! i)))"
    and "on_listener k i s" "\<not> crashed s" "lpc (listeners (fleets s ! k) ! i) = L_Routes"
  shows "routes_loop parse (Routes (cfg (fleets s ! k) ! i)) Map.empty = Panicked \<and>
         step parse s (RoutesStep k i) = Some (panic s) \<and>
         fleets (panic s) = fleets s \<and> crashed (panic s) \<and>
         step parse (panic s) a = None"
proof -
  have p: "routes_loop parse (Routes (cfg (fleets s ! k) ! i)) Map.empty = Panicked"
    using routes_loop_all_parse [OF assms(1), of Map.empty] assms(2) by simp
  then have "step parse s (RoutesStep k i) = Some (panic s)"
    using assms(3-5) by (simp add: step_def Routes_step_def)
  then show ?thesis using p by (simp add: step_def panic_def)
qed

lemma dup_run:
  "run sample_parse init
     [Call [sample_proxy [good_route, good_route], sample_proxy [good_route]],
      ProxyStep 0, ProxyStep 0, ProxyStep 0, ProxyStep 0] = Some dup_state"
  by (simp add: step_defs sample_defs dup_state_def)

theorem duplicate_pattern_panics_witness:
  "run sample_parse init
     [Call [sample_proxy [good_route, good_route], sample_proxy [good_route]],
      ProxyStep 0, ProxyStep 0, ProxyStep 0, ProxyStep 0] = Some dup_state \<and>
   \<not> distinct (map From (Routes (cfg (fleets dup_state ! 0) ! 0))) \<and>
   on_listener 0 0 dup_state \<and> \<not> crashed dup_state \<and>
   lpc (listeners (fleets dup_state ! 0) ! 0) = L_Routes \<and>
   lpc (listeners (fleets dup_state ! 0) ! 1) = L_Routes \<and>
   step sample_parse dup_state (RoutesStep 0 0) = Some (panic dup_state) \<and>
   received (fleets (panic dup_state) ! 0) = [] \<and>
   step sample_parse (panic dup_state) (RoutesStep 0 1) = None"
proof -
  have h1: "\<forall>r\<in>set (Routes (cfg (fleets dup_state ! 0) ! 0)). \<exists>u. sample_parse (To r) = Inr u"
    by (simp add: dup_state_def sample_defs)
  have h2: "\<not> distinct (map From (Routes (cfg (fleets dup_state ! 0) ! 0)))"
    by (simp add: dup_state_def sample_defs)
  have h3: "on_listener 0 0 dup_state" by (simp add: on_listener_def dup_state_def)
  have h4: "\<not> crashed dup_state" by (simp add: dup_state_def)
  have h5: "lpc (listeners (fleets dup_state ! 0) ! 0) = L_Routes" by (simp add: dup_state_def)
  have h6: "lpc (listeners (fleets dup_state ! 0) ! 1) = L_Routes" by (simp add: dup_state_def)
  have h7: "received (fleets dup_state ! 0) = []" by (simp add: dup_state_def)
  show ?thesis
    using duplicate_pattern_panics [OF h1 h2 h3 h4 h5, of "RoutesStep 0 1"] dup_run h2 h3 h4 h5 h6 h7
    by simp
qed

section \<open>Plaintext or TLS\<close>

text \<open>
  C4, as the code has it. A listener that is inside its serve call serves plaintext
  HTTP exactly when the key path of its configuration is empty and HTTPS exactly when
  the key path is non-empty; the certificate path does not enter the choice.
\<close>

theorem protocol_by_key:
  assumes "run parse init acts = Some s" "on_listener k i s"
    and "lpc (listeners (fleets s ! k) ! i) = L_Serving p"
  shows "(p = PlainHTTP \<longleftrightarrow> Key (cfg (fleets s ! k) ! i) = '''') \<and>
         (p = HTTPS \<longleftrightarrow> Key (cfg (fleets s ! k) ! i) \<noteq> '''')"
  using reachable_listener_ok [OF assms(1,2)] assms(3)
  by (simp add: listener_ok_def serve_proto_def)

lemma tls_run:
  "run sample_parse init [Call [tls_proxy], ProxyStep 0, ProxyStep 0, ProxyStep 0, RoutesStep 0 0]
     = Some (started_state tls_proxy HTTPS)"
  by (simp add: step_defs sample_defs tls_proxy_def started_state_def serve_proto_def Handle_def)

theorem protocol_by_key_witness:
  "run sample_parse init [Call [tls_proxy], ProxyStep 0, ProxyStep 0, ProxyStep 0, RoutesStep 0 0]
     = Some (started_state tls_proxy HTTPS) \<and>
   on_listener 0 0 (started_state tls_proxy HTTPS) \<and>
   lpc (listeners (fleets (started_state tls_proxy HTTPS) ! 0) ! 0) = L_Serving HTTPS \<and>
   Key (cfg (fleets (started_state tls_proxy HTTPS) ! 0) ! 0) \<noteq> ''''"
proof -
  have h2: "on_listener 0 0 (started_state tls_proxy HTTPS)"
    by (simp add: on_listener_def started_state_def)
  have h3: "lpc (listeners (fleets (started_state tls_proxy HTTPS) ! 0) ! 0) = L_Serving HTTPS"
    by (simp add: started_state_def)
  show ?thesis
    using protocol_by_key [OF tls_run h2 h3] tls_run h2 h3 by simp
qed

text \<open>
  C4 as the specification words it fails for a configuration with a certificate path
  and no key path: the listener calls \<open>ListenAndServe\<close> and serves plaintext HTTP.
\<close>

theorem cert_without_key_counterexample:
  "Cert cert_only_proxy \<noteq> '''' \<and>
   run sample_parse init
     [Call [cert_only_proxy], ProxyStep 0, ProxyStep 0, ProxyStep 0, RoutesStep 0 0]
     = Some (started_state cert_only_proxy PlainHTTP) \<and>
   lpc (listeners (fleets (started_state cert_only_proxy PlainHTTP) ! 0) ! 0) = L_Serving PlainHTTP"
  by (simp add: step_defs sample_defs cert_only_proxy_def started_state_def serve_proto_def
      Handle_def)

section \<open>Stopping a listener\<close>

text \<open>
  C8. A listener is asked to stop when its watcher calls \<open>Shutdown\<close>, whatever
  \<open>Shutdown\<close> returns (nil after a drain, \<open>DeadlineExceeded\<close> after the timeout: the
  result is discarded). From then on its serve call can only return \<open>ErrServerClosed\<close>,
  and the listener goes to \<open>active.Done()\<close> without sending. In every reachable state a
  listener whose serve call returned \<open>ErrServerClosed\<close> has sent nothing on the error
  channel, and no listener that got as far as creating its server has ever sent
  \<open>ErrServerClosed\<close>.
\<close>

theorem stop_is_not_reported:
  assumes "run parse init acts = Some s" "on_listener k i s"
  shows "(err (listeners (fleets s ! k) ! i) = Some ErrServerClosed \<longrightarrow>
            sent_by i (fleets s ! k) = []) \<and>
         (srv (listeners (fleets s ! k) ! i) \<noteq> None \<longrightarrow>
            ErrServerClosed \<notin> set (sent_by i (fleets s ! k))) \<and>
         (lpc (listeners (fleets s ! k) ! i) = L_Serving p \<and>
          srv (listeners (fleets s ! k) ! i) = Some sv \<and> inShutdown sv \<and>
          step parse s (ServeReturn k i e) = Some s' \<longrightarrow>
            e = Some ErrServerClosed \<and>
            lpc (listeners (fleets s' ! k) ! i) = L_Done \<and>
            received (fleets s' ! k) = received (fleets s ! k))"
proof -
  let ?f = "fleets s ! k"
  let ?l = "listeners ?f ! i"
  have lo: "listener_ok parse (cfg ?f ! i) (sent_by i ?f) ?l"
    using assms by (rule reachable_listener_ok)
  have a: "sent_by i ?f = []" if "err ?l = Some ErrServerClosed"
    using lo that by (cases "lpc ?l") (simp_all add: listener_ok_def reported_def)
  have b: "ErrServerClosed \<notin> set (sent_by i ?f)" if "srv ?l \<noteq> None"
    using lo that
    by (cases "lpc ?l") (auto simp: listener_ok_def reported_def split: option.splits if_splits)
  have c: "e = Some ErrServerClosed \<and> lpc (listeners (fleets s' ! k) ! i) = L_Done \<and>
           received (fleets s' ! k) = received ?f"
    if "lpc ?l = L_Serving p" "srv ?l = Some sv" "inShutdown sv"
      "step parse s (ServeReturn k i e) = Some s'"
    using that assms(2)
    by (auto simp: step_def Serve_return_def on_listener_def upd_fleet_def upd_listener_def
        split: if_splits)
  show ?thesis using a b c by blast
qed

lemma stopping_run:
  "run sample_parse init
     [Call [stop_proxy], ProxyStep 0, ProxyStep 0, ProxyStep 0, ProxyStep 0, RoutesStep 0 0,
      WatcherStart 0 0, StopRecv 0 0 False None, StopRecv 0 0 True (Some DeadlineExceeded)]
     = Some (stop_state (serving_listener True W_Returned))"
  by (simp add: step_defs sample_defs stop_proxy_def stop_state_def serving_listener_def
      serve_proto_def Handle_def)

theorem stop_is_not_reported_witness:
  "run sample_parse init
     [Call [stop_proxy], ProxyStep 0, ProxyStep 0, ProxyStep 0, ProxyStep 0, RoutesStep 0 0,
      WatcherStart 0 0, StopRecv 0 0 False None, StopRecv 0 0 True (Some DeadlineExceeded)]
     = Some (stop_state (serving_listener True W_Returned)) \<and>
   on_listener 0 0 (stop_state (serving_listener True W_Returned)) \<and>
   step sample_parse (stop_state (serving_listener True W_Returned))
     (ServeReturn 0 0 (Some ErrServerClosed))
     = Some (stop_state ((serving_listener True W_Returned)
               \<lparr>lpc := L_Done, err := Some ErrServerClosed\<rparr>)) \<and>
   received (fleets (stop_state ((serving_listener True W_Returned)
               \<lparr>lpc := L_Done, err := Some ErrServerClosed\<rparr>)) ! 0) = [] \<and>
   step sample_parse (stop_state (serving_listener True W_Returned))
     (ServeReturn 0 0 (Some (OtherError ''accept failed''))) = None"
proof -
  let ?s = "stop_state (serving_listener True W_Returned)"
  let ?s' = "stop_state ((serving_listener True W_Returned)\<lparr>lpc := L_Done, err := Some ErrServerClosed\<rparr>)"
  have h2: "on_listener 0 0 ?s" by (simp add: on_listener_def stop_state_def)
  have h3: "step sample_parse ?s (ServeReturn 0 0 (Some ErrServerClosed)) = Some ?s'"
    by (simp add: step_defs stop_state_def serving_listener_def)
  have h4: "step sample_parse ?s (ServeReturn 0 0 (Some (OtherError ''accept failed''))) = None"
    by (simp add: step_defs stop_state_def serving_listener_def)
  have h5: "lpc (listeners (fleets ?s ! 0) ! 0) = L_Serving PlainHTTP"
    by (simp add: stop_state_def serving_listener_def)
  have h6: "received (fleets ?s ! 0) = []" by (simp add: stop_state_def)
  show ?thesis
    using stop_is_not_reported [OF stopping_run h2,
        of PlainHTTP _ "Some ErrServerClosed" ?s'] stopping_run h2 h3 h4 h5 h6
    by (simp add: stop_state_def serving_listener_def)
qed

lemma srv_after_go:
  "srv (ls[n := (ls ! n)\<lparr>lpc := c\<rparr>] ! i) = srv (ls ! i)"
  by (cases "n < length ls") (simp_all add: nth_list_update list_update_beyond not_less)

text \<open>
  C9. A watcher in its \<open>select\<close> that receives \<open>false\<close> leaves the whole state as it
  is: it stays in the \<open>select\<close> and the listener keeps serving. Receiving \<open>true\<close> calls
  \<open>Shutdown\<close>, and no other step of any goroutine turns the shutdown flag of a server on.
\<close>

theorem false_on_stop_is_ignored:
  assumes "on_listener k i s" "\<not> crashed s"
    and "srv (listeners (fleets s ! k) ! i) = Some sv" "\<not> inShutdown sv"
  shows "(wpc (listeners (fleets s ! k) ! i) = W_Select \<longrightarrow>
            step parse s (StopRecv k i False res) = Some s) \<and>
         (wpc (listeners (fleets s ! k) ! i) = W_Select \<and>
          \<not> (res = Some DeadlineExceeded \<and> StopTimeout (cfg (fleets s ! k) ! i) = - 1) \<longrightarrow>
            (\<exists>s'. step parse s (StopRecv k i True res) = Some s' \<and>
                  srv (listeners (fleets s' ! k) ! i) = Some (sv\<lparr>inShutdown := True\<rparr>))) \<and>
         (step parse s a = Some s' \<and> srv (listeners (fleets s' ! k) ! i) = Some sv' \<and>
          inShutdown sv' \<longrightarrow> (\<exists>r. a = StopRecv k i True r))"
proof -
  have a: "step parse s (StopRecv k i False res) = Some s"
    if "wpc (listeners (fleets s ! k) ! i) = W_Select"
    using that assms(1,2) by (simp add: step_def Stop_recv_def)
  have b: "\<exists>s'. step parse s (StopRecv k i True res) = Some s' \<and>
                srv (listeners (fleets s' ! k) ! i) = Some (sv\<lparr>inShutdown := True\<rparr>)"
    if "wpc (listeners (fleets s ! k) ! i) = W_Select"
       "\<not> (res = Some DeadlineExceeded \<and> StopTimeout (cfg (fleets s ! k) ! i) = - 1)"
    using that assms(1-3)
    by (auto simp: step_def Stop_recv_def on_listener_def upd_fleet_def upd_listener_def)
  have c: "\<exists>r. a = StopRecv k i True r"
    if st: "step parse s a = Some s'" and sv': "srv (listeners (fleets s' ! k) ! i) = Some sv'"
      "inShutdown sv'"
  proof (cases a)
    case (Call p)
    with st sv' assms show ?thesis by (auto simp: step_defs nth_append split: if_splits)
  next
    case (ProxyStep k')
    with st sv' assms show ?thesis
      by (auto simp: step_defs nth_list_update srv_after_go split: if_splits cpc.splits)
  next
    case (RoutesStep k' i')
    with st sv' assms show ?thesis
      by (auto simp: step_defs nth_list_update split: if_splits lpc.splits routes_result.splits)
  next
    case (Send k' i')
    with st sv' assms show ?thesis
      by (auto simp: step_defs nth_list_update split: if_splits lpc.splits option.splits)
  next
    case (ServeReturn k' i' e)
    with st sv' assms show ?thesis
      by (auto simp: step_defs nth_list_update split: if_splits lpc.splits option.splits)
  next
    case (Done k' i')
    with st sv' assms show ?thesis
      by (auto simp: step_defs nth_list_update split: if_splits lpc.splits)
  next
    case (WatcherStart k' i')
    with st sv' assms show ?thesis
      by (auto simp: step_defs nth_list_update split: if_splits wpc.splits)
  next
    case (StopRecv k' i' v r)
    with st sv' assms show ?thesis
      by (auto simp: step_defs nth_list_update split: if_splits wpc.splits)
  next
    case (StopClosed k' i')
    with st sv' assms show ?thesis
      by (auto simp: step_defs nth_list_update split: if_splits wpc.splits)
  next
    case (MonitorStep k')
    with st sv' assms show ?thesis
      by (auto simp: step_defs nth_list_update split: if_splits mpc.splits)
  qed
  show ?thesis using a b c by blast
qed

theorem false_on_stop_is_ignored_witness:
  "on_listener 0 0 (stop_state (serving_listener False W_Select)) \<and>
   \<not> crashed (stop_state (serving_listener False W_Select)) \<and>
   wpc (listeners (fleets (stop_state (serving_listener False W_Select)) ! 0) ! 0) = W_Select \<and>
   run sample_parse init
     [Call [stop_proxy], ProxyStep 0, ProxyStep 0, ProxyStep 0, ProxyStep 0, RoutesStep 0 0,
      WatcherStart 0 0] = Some (stop_state (serving_listener False W_Select)) \<and>
   step sample_parse (stop_state (serving_listener False W_Select)) (StopRecv 0 0 False None)
     = Some (stop_state (serving_listener False W_Select)) \<and>
   step sample_parse (stop_state (serving_listener False W_Select)) (StopRecv 0 0 True None)
     = Some (stop_state (serving_listener True W_Returned))"
proof -
  let ?s = "stop_state (serving_listener False W_Select)"
  have h1: "on_listener 0 0 ?s" by (simp add: on_listener_def stop_state_def)
  have h2: "\<not> crashed ?s" by (simp add: stop_state_def)
  have h3: "srv (listeners (fleets ?s ! 0) ! 0) = Some \<lparr>Addr = '':8080'',
      Handler = [''/'' \<mapsto> \<lparr>Scheme = ''http'', Host = ''backend:9000'', Path = ''/'', RawQuery = ''''\<rparr>],
      inShutdown = False\<rparr>"
    by (simp add: stop_state_def serving_listener_def)
  have h4: "\<not> inShutdown \<lparr>Addr = '':8080'',
      Handler = [''/'' \<mapsto> \<lparr>Scheme = ''http'', Host = ''backend:9000'', Path = ''/'', RawQuery = ''''\<rparr>],
      inShutdown = False\<rparr>"
    by simp
  have h5: "wpc (listeners (fleets ?s ! 0) ! 0) = W_Select"
    by (simp add: stop_state_def serving_listener_def)
  have h6: "run sample_parse init
     [Call [stop_proxy], ProxyStep 0, ProxyStep 0, ProxyStep 0, ProxyStep 0, RoutesStep 0 0,
      WatcherStart 0 0] = Some ?s"
    by (simp add: step_defs sample_defs stop_proxy_def stop_state_def serving_listener_def
        serve_proto_def Handle_def)
  have h7: "step sample_parse ?s (StopRecv 0 0 True None)
     = Some (stop_state (serving_listener True W_Returned))"
    by (simp add: step_defs stop_proxy_def stop_state_def serving_listener_def)
  show ?thesis
    using false_on_stop_is_ignored [OF h1 h2 h3 h4, of sample_parse None] h1 h2 h5 h6 h7
    by simp
qed

section \<open>Successive fleets\<close>

lemma counter_zero_if_all_exited:
  assumes "state_ok parse s"
    and "\<forall>k<length (fleets s). \<forall>i<length (listeners (fleets s ! k)).
           cpc (fleets s ! k) \<noteq> C_Wait \<and> cpc (fleets s ! k) \<noteq> C_Add \<longrightarrow>
           lpc (listeners (fleets s ! k) ! i) = L_Exited"
  shows "active s = 0"
proof -
  have "pending (fleets s ! k) = 0" if "k < length (fleets s)" for k
  proof (cases "cpc (fleets s ! k) = C_Wait \<or> cpc (fleets s ! k) = C_Add")
    case True
    then show ?thesis by (simp add: pending_def)
  next
    case False
    with assms(2) that
    have "\<forall>i<length (listeners (fleets s ! k)). lpc (listeners (fleets s ! k) ! i) = L_Exited"
      by simp
    then have "sum_list (map undone (listeners (fleets s ! k))) = 0"
      by (simp only: undone_zero_iff)
    with False show ?thesis by (simp add: pending_def)
  qed
  then have "\<forall>n\<in>set (map pending (fleets s)). n = 0"
    by (auto simp: in_set_conv_nth)
  then have "sum_list (map pending (fleets s)) = 0"
    by (simp only: sum_list_eq_0_iff)
  then show ?thesis using assms(1) by (simp add: state_ok_def counter_ok_def)
qed

text \<open>
  C3, as the code has it. A call of \<open>Proxy\<close> that is at its \<open>active.Wait()\<close> has started
  none of its listeners, and it cannot proceed while some listener of a fleet that has
  been added to the counter has not yet called \<open>active.Done()\<close>. It proceeds as soon as
  all of them have, whether or not the error channels of the earlier fleets are closed.
\<close>

theorem second_call_waits_for_counter:
  assumes "run parse init acts = Some s" "j < length (fleets s)" "cpc (fleets s ! j) = C_Wait"
  shows "(on_listener k i s \<and> cpc (fleets s ! k) \<noteq> C_Wait \<and> cpc (fleets s ! k) \<noteq> C_Add \<and>
          lpc (listeners (fleets s ! k) ! i) \<noteq> L_Exited \<longrightarrow>
            step parse s (ProxyStep j) = None) \<and>
         (\<forall>l\<in>set (listeners (fleets s ! j)). lpc l = L_NotStarted) \<and>
         (\<not> crashed s \<and>
          (\<forall>k<length (fleets s). \<forall>i<length (listeners (fleets s ! k)).
             cpc (fleets s ! k) \<noteq> C_Wait \<and> cpc (fleets s ! k) \<noteq> C_Add \<longrightarrow>
             lpc (listeners (fleets s ! k) ! i) = L_Exited) \<longrightarrow>
            step parse s (ProxyStep j) = Some (upd_fleet j (\<lambda>f. f\<lparr>cpc := C_Add\<rparr>) s))"
proof -
  have ok: "state_ok parse s" using assms(1) by (rule reachable_inv)
  have a: "step parse s (ProxyStep j) = None"
    if "on_listener k i s" "cpc (fleets s ! k) \<noteq> C_Wait" "cpc (fleets s ! k) \<noteq> C_Add"
      "lpc (listeners (fleets s ! k) ! i) \<noteq> L_Exited"
  proof -
    let ?f = "fleets s ! k"
    have k: "k < length (fleets s)" and i: "i < length (listeners ?f)"
      using that(1) by (simp_all add: on_listener_def)
    have "sum_list (map undone (listeners ?f)) \<noteq> 0"
      unfolding undone_zero_iff using i that(4) by blast
    with that(2,3) have "pending ?f \<noteq> 0" by (simp add: pending_def)
    moreover have "pending ?f \<le> active s" using ok k by (rule pending_le_active)
    ultimately have "active s \<noteq> 0" by simp
    then show ?thesis using assms(2,3) by (simp add: step_def Proxy_step_def)
  qed
  have fo: "fleet_ok (fleets s ! j)" using assms(1,2) by (rule reachable_fleet_ok)
  have b: "\<forall>l\<in>set (listeners (fleets s ! j)). lpc l = L_NotStarted"
    using fo assms(3) by (auto simp: fleet_ok_def in_set_conv_nth)
  have c: "step parse s (ProxyStep j) = Some (upd_fleet j (\<lambda>f. f\<lparr>cpc := C_Add\<rparr>) s)"
    if "\<not> crashed s"
      "\<forall>k<length (fleets s). \<forall>i<length (listeners (fleets s ! k)).
         cpc (fleets s ! k) \<noteq> C_Wait \<and> cpc (fleets s ! k) \<noteq> C_Add \<longrightarrow>
         lpc (listeners (fleets s ! k) ! i) = L_Exited"
  proof -
    have "active s = 0" using ok that(2) by (rule counter_zero_if_all_exited)
    then show ?thesis using assms(2,3) that(1) by (simp add: step_def Proxy_step_def)
  qed
  show ?thesis using a b c by blast
qed

lemma second_call_run:
  "run sample_parse init
     [Call [sample_proxy [good_route]], ProxyStep 0, ProxyStep 0, ProxyStep 0, ProxyStep 0,
      RoutesStep 0 0, Call [sample_proxy [good_route]]] = Some second_call_state"
  by (simp add: step_defs sample_defs second_call_state_def sample_server_def serve_proto_def
      Handle_def)

theorem second_call_waits_for_counter_witness:
  "run sample_parse init
     [Call [sample_proxy [good_route]], ProxyStep 0, ProxyStep 0, ProxyStep 0, ProxyStep 0,
      RoutesStep 0 0, Call [sample_proxy [good_route]]] = Some second_call_state \<and>
   1 < length (fleets second_call_state) \<and> cpc (fleets second_call_state ! 1) = C_Wait \<and>
   on_listener 0 0 second_call_state \<and> cpc (fleets second_call_state ! 0) = C_Returned \<and>
   lpc (listeners (fleets second_call_state ! 0) ! 0) = L_Serving PlainHTTP \<and>
   step sample_parse second_call_state (ProxyStep 1) = None \<and>
   map lpc (listeners (fleets second_call_state ! 1)) = [L_NotStarted]"
proof -
  have h2: "1 < length (fleets second_call_state)" by (simp add: second_call_state_def)
  have h3: "cpc (fleets second_call_state ! 1) = C_Wait"
    by (simp add: second_call_state_def new_fleet_def)
  have h4: "on_listener 0 0 second_call_state"
    by (simp add: second_call_state_def on_listener_def)
  have h5: "cpc (fleets second_call_state ! 0) = C_Returned"
    by (simp add: second_call_state_def)
  have h6: "lpc (listeners (fleets second_call_state ! 0) ! 0) = L_Serving PlainHTTP"
    by (simp add: second_call_state_def)
  have h7: "map lpc (listeners (fleets second_call_state ! 1)) = [L_NotStarted]"
    by (simp add: second_call_state_def new_fleet_def new_listener_def)
  show ?thesis
    using second_call_waits_for_counter [OF second_call_run h2 h3, of 0 0]
      second_call_run h2 h3 h4 h5 h6 h7
    by simp
qed

text \<open>
  C3 as the specification words it fails: the second call is released by the counter,
  not by the closing of the first error channel. Here the second call is made while the
  first listener serves and is blocked; the first listener then fails, reports and calls
  \<open>active.Done()\<close>; the second call passes its \<open>Wait\<close> and starts its listener while the
  first channel is still open, and the first closing goroutine is blocked again.
\<close>

theorem second_call_overlap_counterexample:
  "run sample_parse init
     [Call [sample_proxy [good_route]], ProxyStep 0, ProxyStep 0, ProxyStep 0, ProxyStep 0,
      RoutesStep 0 0, Call [sample_proxy [good_route]]] = Some second_call_state \<and>
   step sample_parse second_call_state (ProxyStep 1) = None \<and>
   run sample_parse second_call_state
     [ServeReturn 0 0 (Some (OtherError ''address already in use'')), Send 0 0, Done 0 0,
      ProxyStep 1, ProxyStep 1, ProxyStep 1] = Some overlap_state \<and>
   lpc (listeners (fleets overlap_state ! 1) ! 0) = L_Routes \<and>
   \<not> closed (fleets overlap_state ! 0) \<and>
   step sample_parse overlap_state (MonitorStep 0) = None"
  by (simp add: step_defs sample_defs second_call_state_def overlap_state_def sample_server_def
      serve_proto_def Handle_def)

section \<open>A target that does not parse\<close>





end
